theory Spec2Isabelle
  imports Main "HOL-Library.AList" "HOL-Library.Multiset"
begin

section \<open>Data model\<close>

text \<open>
  One entry of \<open>result.versions\<close>, as \<open>get_object_versions\<close> reads it: the object key,
  the version id and \<open>last_modified\<close>, the Unix time in whole seconds that the storage
  client delivers.
\<close>

record obj_version =
  key :: string
  versionid :: string
  last_modified :: int

text \<open>The fields of a \<open>list_object_versions\<close> response that the code reads.\<close>

record list_result =
  versions :: "obj_version list"
  is_truncated :: bool
  next_key_marker :: string
  next_versionid_marker :: string

text \<open>
  The dictionary stored under each key of \<open>latest_versions\<close>. Its entry \<open>'versionid'\<close> is
  the field \<open>info_versionid\<close> (the name \<open>versionid\<close> is taken by \<open>obj_version\<close>). A
  timezone-aware UTC \<open>datetime\<close> is modelled by its Unix time in seconds, so comparing two
  of them compares the instants, as Python does for aware datetimes.
\<close>

record version_info =
  info_versionid :: string
  version_time :: int
  last_modified_str :: int

text \<open>
  What a call can raise. \<open>Exception m\<close> is an instance of Python's class \<open>Exception\<close>
  (every error of the storage client is one); \<open>BaseException m\<close> is an instance of
  \<open>BaseException\<close> outside \<open>Exception\<close> (\<open>KeyboardInterrupt\<close>, \<open>SystemExit\<close>), which
  \<open>except Exception\<close> does not catch.
\<close>

datatype raised = Exception string | BaseException string

text \<open>
  The bucket object: its name and the three methods the code calls. The service is
  external and stateful, so each method takes the service state \<open>'s\<close> and returns the new
  one with its outcome (\<open>Inl\<close>: it raised).
  \<^item> \<open>list_object_versions prefix key_marker versionid_marker max_keys\<close>
  \<^item> \<open>copy_object source_bucket_name source_key target_key versionId\<close>
  \<^item> \<open>delete_object key\<close>
\<close>

record 's bucket =
  bucket_name :: string
  list_object_versions ::
    "string \<Rightarrow> string \<Rightarrow> string \<Rightarrow> nat \<Rightarrow> 's \<Rightarrow> (raised + list_result) \<times> 's"
  copy_object :: "string \<Rightarrow> string \<Rightarrow> string \<Rightarrow> string \<Rightarrow> 's \<Rightarrow> (raised + unit) \<times> 's"
  delete_object :: "string \<Rightarrow> 's \<Rightarrow> (raised + unit) \<times> 's"

text \<open>
  The observable behaviour of a run is its list of events, in order: every logger call
  (level, message, arguments), every call of a bucket method, and what each call of
  \<open>list_object_versions\<close> came back with (the page it returned or what it raised).
  The two f-strings \<open>action\<close> are kept structured:
  \<open>Restoring key versionid version_time\<close> stands for
  \<^verbatim>\<open>f"Restoring '{key}' to version '{versionid}' modified at {version_time_str}"\<close> and
  \<open>Deleting key\<close> for \<^verbatim>\<open>f"Deleting '{key}'"\<close>.
\<close>

datatype action = Restoring string string int | Deleting string

datatype arg = Str string | Act action | Time int | Count nat | Exc raised

datatype level = DEBUG | INFO | ERROR

datatype event =
    Log level arg "arg list"
  | Call_list_object_versions string string string nat
  | Return_list_object_versions list_result
  | Raise_list_object_versions raised
  | Call_copy_object string string string string
  | Call_delete_object string

text \<open>
  The local state of the scan: \<open>latest_versions\<close>, a Python dict (an association list in
  insertion order, \<open>AList.update\<close> overwriting in place as a dict assignment does), and the
  set \<open>keys_without_older_versions\<close>.
\<close>

type_synonym plan = "(string \<times> version_info) list \<times> string set"

section \<open>get_object_versions\<close>

text \<open>
  \<open>datetime.datetime.fromtimestamp(ts, datetime.timezone.utc)\<close>: the datetime of the
  instant \<open>ts\<close>. A datetime has a year from 1 to 9999; outside of it the call raises (a
  \<open>ValueError\<close>, \<open>OverflowError\<close> or \<open>OSError\<close> by magnitude, all of class \<open>Exception\<close>).
\<close>

definition fromtimestamp :: "int \<Rightarrow> raised + int" where
  "fromtimestamp ts =
     (if - 62135596800 \<le> ts \<and> ts \<le> 253402300799 then Inr ts
      else Inl (Exception ''timestamp out of range''))"

text \<open>The body of \<open>for obj_version in result.versions\<close> (lines 88 to 103).\<close>

fun process_version :: "int \<Rightarrow> plan \<Rightarrow> obj_version \<Rightarrow> (raised + plan) \<times> event list" where
  "process_version recovery_time (latest_versions, keys_without_older_versions) obj_version =
       (let k = key obj_version in
        case fromtimestamp (last_modified obj_version) of
          Inl e \<Rightarrow> (Inl e, [])
        | Inr vt \<Rightarrow>
            let processing =
              Log DEBUG (Str ''Processing version for key: %s, version time: %s'') [Str k, Time vt]
            in
            if vt \<le> recovery_time then
              (if (case map_of latest_versions k of
                     None \<Rightarrow> True
                   | Some cur \<Rightarrow> version_time cur < vt)
               then
                 (Inr (AList.update k
                         \<lparr>info_versionid = versionid obj_version,
                          version_time = vt,
                          last_modified_str = last_modified obj_version\<rparr>
                         latest_versions,
                       keys_without_older_versions - {k}),
                  [processing, Log DEBUG (Str ''Updating latest version for key: %s'') [Str k]])
               else (Inr (latest_versions, keys_without_older_versions - {k}), [processing]))
            else if map_of latest_versions k = None then
              (Inr (latest_versions, insert k keys_without_older_versions),
               [processing,
                Log DEBUG (Str ''Adding key to keys_without_older_versions: %s'') [Str k]])
            else (Inr (latest_versions, keys_without_older_versions), [processing]))"

text \<open>The \<open>for\<close> loop over one page; an exception leaves it at once.\<close>

fun process_versions :: "int \<Rightarrow> plan \<Rightarrow> obj_version list \<Rightarrow> (raised + plan) \<times> event list" where
  "process_versions recovery_time st [] = (Inr st, [])"
| "process_versions recovery_time st (v # vs) =
     (case process_version recovery_time st v of
        (Inl e, evs) \<Rightarrow> (Inl e, evs)
      | (Inr st', evs) \<Rightarrow>
          (case process_versions recovery_time st' vs of (r, evs') \<Rightarrow> (r, evs @ evs')))"

text \<open>
  The \<open>while True\<close> loop (lines 79 to 108), with the events so far in \<open>tr\<close>. Nothing bounds
  the number of pages, so the loop is a partial function: \<open>None\<close> is a run that never
  leaves the loop. An exception of the listing call or of the scan is not caught: it is
  the outcome \<open>Inl\<close>.
\<close>

partial_function (option) list_loop ::
  "'s bucket \<Rightarrow> string \<Rightarrow> int \<Rightarrow> string \<Rightarrow> string \<Rightarrow> plan \<Rightarrow> 's \<Rightarrow> event list \<Rightarrow>
     ((raised + plan) \<times> 's \<times> event list) option"
where
  "list_loop bucket prefix recovery_time key_marker versionid_marker st s tr =
     (let tr1 = tr @
            [Log DEBUG (Str ''Listing object versions with key_marker: %s, versionid_marker: %s'')
               [Str key_marker, Str versionid_marker],
             Call_list_object_versions prefix key_marker versionid_marker 999]
      in
      case list_object_versions bucket prefix key_marker versionid_marker 999 s of
        (Inl e, s') \<Rightarrow> Some (Inl e, s', tr1 @ [Raise_list_object_versions e])
      | (Inr result, s') \<Rightarrow>
          (case process_versions recovery_time st (versions result) of
             (Inl e, evs) \<Rightarrow> Some (Inl e, s', tr1 @ Return_list_object_versions result # evs)
           | (Inr st', evs) \<Rightarrow>
               if \<not> is_truncated result
               then Some (Inr st', s', tr1 @ Return_list_object_versions result # evs)
               else list_loop bucket prefix recovery_time
                      (next_key_marker result) (next_versionid_marker result) st' s'
                      (tr1 @ Return_list_object_versions result # evs)))"

definition get_object_versions ::
  "'s bucket \<Rightarrow> string \<Rightarrow> int \<Rightarrow> 's \<Rightarrow> ((raised + plan) \<times> 's \<times> event list) option"
where
  "get_object_versions bucket prefix recovery_time s =
     (case list_loop bucket prefix recovery_time [] [] ([], {}) s
             [Log DEBUG (Str ''Starting to get object versions for prefix: %s'') [Str prefix]] of
        None \<Rightarrow> None
      | Some (Inl e, s', tr) \<Rightarrow> Some (Inl e, s', tr)
      | Some (Inr (latest_versions, keys_without_older_versions), s', tr) \<Rightarrow>
          Some (Inr (latest_versions, keys_without_older_versions), s',
                tr @ [Log DEBUG
                        (Str ''Finished getting object versions. Found %d latest versions and %d keys without older versions'')
                        [Count (length latest_versions), Count (card keys_without_older_versions)]]))"

section \<open>restore_latest_versions and delete_newer_versions\<close>

text \<open>
  A \<open>for\<close> loop whose body may raise: the bodies run in order, each from the service state
  the one before left, and the first exception that leaves a body leaves the loop.
\<close>

fun for_each ::
  "('a \<Rightarrow> 's \<Rightarrow> (raised + unit) \<times> 's \<times> event list) \<Rightarrow> 'a list \<Rightarrow> 's \<Rightarrow>
     (raised + unit) \<times> 's \<times> event list"
where
  "for_each body [] s = (Inr (), s, [])"
| "for_each body (x # xs) s =
     (case body x s of
        (Inl e, s', evs) \<Rightarrow> (Inl e, s', evs)
      | (Inr u, s', evs) \<Rightarrow>
          (case for_each body xs s' of (r, s'', evs') \<Rightarrow> (r, s'', evs @ evs')))"

text \<open>The body of the loop of \<open>restore_latest_versions\<close> (lines 118 to 137).\<close>

fun restore_one ::
  "'s bucket \<Rightarrow> bool \<Rightarrow> string \<times> version_info \<Rightarrow> 's \<Rightarrow> (raised + unit) \<times> 's \<times> event list"
where
  "restore_one bucket dry_run (k, info) s =
       (let vid = info_versionid info;
            action = Restoring k vid (version_time info)
        in
        if dry_run then (Inr (), s, [Log INFO (Str ''[Dry Run] Would %s'') [Act action]])
        else
          let tried =
            [Log INFO (Act action) [],
             Log DEBUG (Str ''Copying object: bucket=%s, key=%s, versionId=%s'')
               [Str (bucket_name bucket), Str k, Str vid],
             Call_copy_object (bucket_name bucket) k k vid]
          in
          case copy_object bucket (bucket_name bucket) k k vid s of
            (Inr u, s') \<Rightarrow>
              (Inr (), s',
               tried @ [Log DEBUG (Str ''Successfully restored object: %s'') [Str k]])
          | (Inl (Exception m), s') \<Rightarrow>
              (Inr (), s',
               tried @
               [Log ERROR (Str ''Error restoring '%s' version '%s': %s'')
                  [Str k, Str vid, Exc (Exception m)],
                Log DEBUG (Str ''Exception details:'') []])
          | (Inl (BaseException m), s') \<Rightarrow> (Inl (BaseException m), s', tried))"

definition restore_latest_versions ::
  "'s bucket \<Rightarrow> (string \<times> version_info) list \<Rightarrow> bool \<Rightarrow> 's \<Rightarrow> (raised + unit) \<times> 's \<times> event list"
where
  "restore_latest_versions bucket latest_versions dry_run s =
     (case for_each (restore_one bucket dry_run) latest_versions s of
        (r, s', evs) \<Rightarrow>
          (r, s',
           Log DEBUG (Str ''Starting to restore latest versions for %d objects'')
             [Count (length latest_versions)] # evs))"

text \<open>The body of the loop of \<open>delete_newer_versions\<close> (lines 143 to 154).\<close>

definition delete_one ::
  "'s bucket \<Rightarrow> bool \<Rightarrow> string \<Rightarrow> 's \<Rightarrow> (raised + unit) \<times> 's \<times> event list"
where
  "delete_one bucket dry_run k s =
     (let action = Deleting k in
      if dry_run then (Inr (), s, [Log INFO (Str ''[Dry Run] Would %s'') [Act action]])
      else
        let tried =
          [Log INFO (Act action) [],
           Log DEBUG (Str ''Deleting object: bucket=%s, key=%s'') [Str (bucket_name bucket), Str k],
           Call_delete_object k]
        in
        case delete_object bucket k s of
          (Inr u, s') \<Rightarrow>
            (Inr (), s', tried @ [Log DEBUG (Str ''Successfully deleted object: %s'') [Str k]])
        | (Inl (Exception m), s') \<Rightarrow>
            (Inr (), s',
             tried @
             [Log ERROR (Str ''Error deleting '%s': %s'') [Str k, Exc (Exception m)],
              Log DEBUG (Str ''Exception details:'') []])
        | (Inl (BaseException m), s') \<Rightarrow> (Inl (BaseException m), s', tried))"

text \<open>
  The argument is the set \<open>keys_without_older_versions\<close> in the order in which the \<open>for\<close>
  loop meets its elements: a list without repetitions. Python does not fix that order.
\<close>

definition delete_newer_versions ::
  "'s bucket \<Rightarrow> string list \<Rightarrow> bool \<Rightarrow> 's \<Rightarrow> (raised + unit) \<times> 's \<times> event list"
where
  "delete_newer_versions bucket keys_without_older_versions dry_run s =
     (case for_each (delete_one bucket dry_run) keys_without_older_versions s of
        (r, s', evs) \<Rightarrow>
          (r, s',
           Log DEBUG (Str ''Starting to delete %d newer versions'')
             [Count (length keys_without_older_versions)] # evs))"

section \<open>recover_objects\<close>

text \<open>
  \<open>set_order\<close> is the order in which Python iterates over a set (it is not fixed by the
  language, so it is a parameter). An exception of any of the three phases is not caught.
\<close>

definition recover_objects ::
  "(string set \<Rightarrow> string list) \<Rightarrow> 's bucket \<Rightarrow> string \<Rightarrow> int \<Rightarrow> bool \<Rightarrow> bool \<Rightarrow> 's \<Rightarrow>
     ((raised + unit) \<times> 's \<times> event list) option"
where
  "recover_objects set_order bucket prefix recovery_time dry_run delete_newer s =
     (let starting =
        [Log INFO (Str ''Starting recovery process for prefix '%s' up to time %sZ'')
           [Str prefix, Time recovery_time]]
      in
      case get_object_versions bucket prefix recovery_time s of
        None \<Rightarrow> None
      | Some (Inl e, s1, evs1) \<Rightarrow> Some (Inl e, s1, starting @ evs1)
      | Some (Inr (latest_versions, keys_without_older_versions), s1, evs1) \<Rightarrow>
          (case restore_latest_versions bucket latest_versions dry_run s1 of
             (Inl e, s2, evs2) \<Rightarrow> Some (Inl e, s2, starting @ evs1 @ evs2)
           | (Inr u, s2, evs2) \<Rightarrow>
               if delete_newer then
                 (case delete_newer_versions bucket (set_order keys_without_older_versions)
                         dry_run s2 of
                    (Inl e, s3, evs3) \<Rightarrow> Some (Inl e, s3, starting @ evs1 @ evs2 @ evs3)
                  | (Inr u', s3, evs3) \<Rightarrow>
                      Some (Inr (), s3,
                            starting @ evs1 @ evs2 @ evs3 @
                            [Log INFO (Str ''Recovery process completed.'') []]))
               else
                 Some (Inr (), s2,
                       starting @ evs1 @ evs2 @
                       [Log INFO (Str ''Recovery process completed.'') []])))"

text \<open>A call that leaves out the two optional flags: both default to \<open>False\<close>.\<close>

definition recover_objects_default ::
  "(string set \<Rightarrow> string list) \<Rightarrow> 's bucket \<Rightarrow> string \<Rightarrow> int \<Rightarrow> 's \<Rightarrow>
     ((raised + unit) \<times> 's \<times> event list) option"
where
  "recover_objects_default set_order bucket prefix recovery_time s =
     recover_objects set_order bucket prefix recovery_time False False s"

section \<open>Reading a run\<close>

text \<open>
  The pages that \<open>list_object_versions\<close> returned in a run, and the version stream: their
  entries in the order in which the scan met them.
\<close>

fun page_of :: "event \<Rightarrow> list_result list" where
  "page_of (Return_list_object_versions r) = [r]"
| "page_of _ = []"

definition returned_pages :: "event list \<Rightarrow> list_result list" where
  "returned_pages evs = concat (map page_of evs)"

definition observed_versions :: "event list \<Rightarrow> obj_version list" where
  "observed_versions evs = concat (map versions (returned_pages evs))"

text \<open>The calls a run issued: the listing requests, and the two mutating calls.\<close>

fun is_list_call :: "event \<Rightarrow> bool" where
  "is_list_call (Call_list_object_versions p k v n) = True"
| "is_list_call _ = False"

definition list_calls :: "event list \<Rightarrow> event list" where
  "list_calls evs = filter is_list_call evs"

fun is_mutating_call :: "event \<Rightarrow> bool" where
  "is_mutating_call (Call_copy_object b k t v) = True"
| "is_mutating_call (Call_delete_object k) = True"
| "is_mutating_call _ = False"

definition mutating_calls :: "event list \<Rightarrow> event list" where
  "mutating_calls evs = filter is_mutating_call evs"

text \<open>The logger calls.\<close>

fun is_log :: "event \<Rightarrow> bool" where
  "is_log (Log l m as) = True"
| "is_log _ = False"

text \<open>
  The first logger call of \<open>restore_latest_versions\<close> and of \<open>delete_newer_versions\<close>: a
  run holds one exactly when it entered that function.
\<close>

fun is_restore_start :: "event \<Rightarrow> bool" where
  "is_restore_start (Log l m as) =
     (l = DEBUG \<and> m = Str ''Starting to restore latest versions for %d objects'')"
| "is_restore_start _ = False"

fun is_delete_start :: "event \<Rightarrow> bool" where
  "is_delete_start (Log l m as) =
     (l = DEBUG \<and> m = Str ''Starting to delete %d newer versions'')"
| "is_delete_start _ = False"

text \<open>
  Three kinds of events, by what they exclude: an event of the planning (no mutating call
  and no entry into an apply function), an event that \<open>restore_latest_versions\<close> can
  produce and one that \<open>delete_newer_versions\<close> can produce.
\<close>

definition planning_event :: "event \<Rightarrow> bool" where
  "planning_event e \<longleftrightarrow> \<not> is_mutating_call e \<and> \<not> is_restore_start e \<and> \<not> is_delete_start e"

fun restore_event :: "event \<Rightarrow> bool" where
  "restore_event (Log l m as) = (\<not> is_delete_start (Log l m as))"
| "restore_event (Call_copy_object b k t v) = True"
| "restore_event _ = False"

fun delete_event :: "event \<Rightarrow> bool" where
  "delete_event (Log l m as) = (\<not> is_restore_start (Log l m as))"
| "delete_event (Call_delete_object k) = True"
| "delete_event _ = False"

section \<open>The scan as a fold\<close>

text \<open>
  The timestamps that \<open>fromtimestamp\<close> accepts, and the step of the scan on them: what
  \<open>process_version\<close> does to the plan when it does not raise.
\<close>

definition representable :: "int \<Rightarrow> bool" where
  "representable ts \<longleftrightarrow> - 62135596800 \<le> ts \<and> ts \<le> 253402300799"

definition info_of :: "obj_version \<Rightarrow> version_info" where
  "info_of v = \<lparr>info_versionid = versionid v, version_time = last_modified v,
                last_modified_str = last_modified v\<rparr>"

fun plan_step :: "int \<Rightarrow> obj_version \<Rightarrow> plan \<Rightarrow> plan" where
  "plan_step recovery_time v (lv, ks) =
     (if last_modified v \<le> recovery_time then
        (if (case map_of lv (key v) of None \<Rightarrow> True
             | Some cur \<Rightarrow> version_time cur < last_modified v)
         then AList.update (key v) (info_of v) lv
         else lv,
         ks - {key v})
      else if map_of lv (key v) = None then (lv, insert (key v) ks)
      else (lv, ks))"

text \<open>The versions of key \<open>k\<close> at or before the cutoff, in stream order.\<close>

definition eligible :: "int \<Rightarrow> string \<Rightarrow> obj_version list \<Rightarrow> obj_version list" where
  "eligible recovery_time k vs = [v \<leftarrow> vs. key v = k \<and> last_modified v \<le> recovery_time]"

text \<open>The plan after a scan from the empty plan.\<close>

abbreviation scan :: "int \<Rightarrow> obj_version list \<Rightarrow> plan" where
  "scan rt vs \<equiv> fold (plan_step rt) vs ([], {})"

section \<open>The listing requests\<close>

text \<open>
  The requests that belong to the pages \<open>pages\<close> of a listing started at the markers
  \<open>km\<close>, \<open>vm\<close>: the first with these markers, each later one with the markers of the page
  before it, all with \<open>max_keys = 999\<close>.
\<close>

definition listing_requests :: "string \<Rightarrow> string \<Rightarrow> string \<Rightarrow> list_result list \<Rightarrow> event list" where
  "listing_requests p km vm pages =
     map (\<lambda>(k, v). Call_list_object_versions p k v 999)
       ((km, vm) # map (\<lambda>r. (next_key_marker r, next_versionid_marker r)) (butlast pages))"

text \<open>
  \<open>listing_ends b p n km vm s\<close>: the service, asked from the markers \<open>km\<close>, \<open>vm\<close> in state
  \<open>s\<close> and each time again with the markers it returned, answers one of the first \<open>n + 1\<close>
  requests with a page that is not truncated, or with an error.
\<close>

fun listing_ends :: "'s bucket \<Rightarrow> string \<Rightarrow> nat \<Rightarrow> string \<Rightarrow> string \<Rightarrow> 's \<Rightarrow> bool" where
  "listing_ends b p 0 km vm s =
     (case list_object_versions b p km vm 999 s of
        (Inl e, s') \<Rightarrow> True
      | (Inr r, s') \<Rightarrow> \<not> is_truncated r)"
| "listing_ends b p (Suc n) km vm s =
     (case list_object_versions b p km vm 999 s of
        (Inl e, s') \<Rightarrow> True
      | (Inr r, s') \<Rightarrow>
          (if is_truncated r
           then listing_ends b p n (next_key_marker r) (next_versionid_marker r) s'
           else True))"

text \<open>
  \<open>listing b p n km vm s = Some (pages, s')\<close>: asked in the same way, the service raises
  nothing and returns the pages \<open>pages\<close>, of which the last is the first that is not
  truncated and at most \<open>n + 1\<close> are needed, and is left in state \<open>s'\<close>. It is \<open>None\<close>
  when a request raises or the first \<open>n + 1\<close> pages are all truncated.
\<close>

fun listing ::
  "'s bucket \<Rightarrow> string \<Rightarrow> nat \<Rightarrow> string \<Rightarrow> string \<Rightarrow> 's \<Rightarrow> (list_result list \<times> 's) option"
where
  "listing b p 0 km vm s =
     (case list_object_versions b p km vm 999 s of
        (Inl e, s') \<Rightarrow> None
      | (Inr r, s') \<Rightarrow> (if is_truncated r then None else Some ([r], s')))"
| "listing b p (Suc n) km vm s =
     (case list_object_versions b p km vm 999 s of
        (Inl e, s') \<Rightarrow> None
      | (Inr r, s') \<Rightarrow>
          (if is_truncated r
           then (case listing b p n (next_key_marker r) (next_versionid_marker r) s' of
                   None \<Rightarrow> None
                 | Some (rs, s'') \<Rightarrow> Some (r # rs, s''))
           else Some ([r], s')))"

text \<open>What holds of the events of the loop whatever its outcome.\<close>

definition listing_trace :: "string \<Rightarrow> raised + plan \<Rightarrow> event list \<Rightarrow> bool" where
  "listing_trace p out evs \<longleftrightarrow>
     evs \<noteq> [] \<and>
     (\<forall>e\<in>set evs. planning_event e) \<and>
     (\<forall>e\<in>set (list_calls evs). \<exists>k v. e = Call_list_object_versions p k v 999) \<and>
     (\<forall>x. Raise_list_object_versions x \<in> set evs \<longrightarrow>
        out = Inl x \<and> last evs = Raise_list_object_versions x)"

section \<open>Buckets and streams of the examples\<close>

text \<open>
  The bucket of the unit tests: one page that is not truncated, and mutating calls that
  succeed. \<open>test_versions\<close> is the page of \<open>test_get_object_versions\<close> (the times are
  2021-10-07 14:00, 15:25, 16:00, 15:15, 16:00 and 16:00 UTC).
\<close>

definition mock_bucket :: "obj_version list \<Rightarrow> unit bucket" where
  "mock_bucket vs =
     \<lparr>bucket_name = ''bucket'',
      list_object_versions = (\<lambda>prefix key_marker versionid_marker max_keys s.
        (Inr \<lparr>versions = vs, is_truncated = False,
              next_key_marker = [], next_versionid_marker = []\<rparr>, s)),
      copy_object = (\<lambda>source_bucket_name source_key target_key version s. (Inr (), s)),
      delete_object = (\<lambda>k s. (Inr (), s))\<rparr>"

definition test_versions :: "obj_version list" where
  "test_versions =
     [\<lparr>key = ''object1'', versionid = ''v1'', last_modified = 1633615200\<rparr>,
      \<lparr>key = ''object1'', versionid = ''v2'', last_modified = 1633620300\<rparr>,
      \<lparr>key = ''object1'', versionid = ''v3'', last_modified = 1633622400\<rparr>,
      \<lparr>key = ''object2'', versionid = ''v1'', last_modified = 1633619700\<rparr>,
      \<lparr>key = ''object2'', versionid = ''v2'', last_modified = 1633622400\<rparr>,
      \<lparr>key = ''object3'', versionid = ''v1'', last_modified = 1633622400\<rparr>]"

text \<open>
  The run of \<open>get_object_versions\<close> on that page with the recovery time 15:30 (the first
  case of the unit test): its plan and its events.
\<close>

definition test_latest_versions :: "(string \<times> version_info) list" where
  "test_latest_versions =
     [(''object1'', \<lparr>info_versionid = ''v2'', version_time = 1633620300,
                     last_modified_str = 1633620300\<rparr>),
      (''object2'', \<lparr>info_versionid = ''v1'', version_time = 1633619700,
                     last_modified_str = 1633619700\<rparr>)]"

definition test_events :: "event list" where
  "test_events =
     [Log DEBUG (Str ''Starting to get object versions for prefix: %s'') [Str ''prefix/''],
      Log DEBUG (Str ''Listing object versions with key_marker: %s, versionid_marker: %s'')
        [Str [], Str []],
      Call_list_object_versions ''prefix/'' [] [] 999,
      Return_list_object_versions
        \<lparr>versions = test_versions, is_truncated = False,
         next_key_marker = [], next_versionid_marker = []\<rparr>,
      Log DEBUG (Str ''Processing version for key: %s, version time: %s'')
        [Str ''object1'', Time 1633615200],
      Log DEBUG (Str ''Updating latest version for key: %s'') [Str ''object1''],
      Log DEBUG (Str ''Processing version for key: %s, version time: %s'')
        [Str ''object1'', Time 1633620300],
      Log DEBUG (Str ''Updating latest version for key: %s'') [Str ''object1''],
      Log DEBUG (Str ''Processing version for key: %s, version time: %s'')
        [Str ''object1'', Time 1633622400],
      Log DEBUG (Str ''Processing version for key: %s, version time: %s'')
        [Str ''object2'', Time 1633619700],
      Log DEBUG (Str ''Updating latest version for key: %s'') [Str ''object2''],
      Log DEBUG (Str ''Processing version for key: %s, version time: %s'')
        [Str ''object2'', Time 1633622400],
      Log DEBUG (Str ''Processing version for key: %s, version time: %s'')
        [Str ''object3'', Time 1633622400],
      Log DEBUG (Str ''Adding key to keys_without_older_versions: %s'') [Str ''object3''],
      Log DEBUG
        (Str ''Finished getting object versions. Found %d latest versions and %d keys without older versions'')
        [Count 2, Count 1]]"

text \<open>Two versions of one key with the same modification time.\<close>

definition tie_versions :: "obj_version list" where
  "tie_versions =
     [\<lparr>key = ''object1'', versionid = ''v1'', last_modified = 1633615200\<rparr>,
      \<lparr>key = ''object1'', versionid = ''v2'', last_modified = 1633615200\<rparr>]"

text \<open>
  The three versions of \<open>object1\<close> as a truncated page, and a bucket that answers the
  first request (empty key marker) with it and every later one with \<open>second\<close>: a page,
  or an error.
\<close>

definition first_page :: list_result where
  "first_page =
     \<lparr>versions =
        [\<lparr>key = ''object1'', versionid = ''v1'', last_modified = 1633615200\<rparr>,
         \<lparr>key = ''object1'', versionid = ''v2'', last_modified = 1633620300\<rparr>,
         \<lparr>key = ''object1'', versionid = ''v3'', last_modified = 1633622400\<rparr>],
      is_truncated = True,
      next_key_marker = ''object1'', next_versionid_marker = ''v3''\<rparr>"

definition paged_bucket :: "raised + list_result \<Rightarrow> unit bucket" where
  "paged_bucket second =
     \<lparr>bucket_name = ''bucket'',
      list_object_versions = (\<lambda>prefix key_marker versionid_marker max_keys s.
        (if key_marker = [] then Inr first_page else second, s)),
      copy_object = (\<lambda>source_bucket_name source_key target_key version s. (Inr (), s)),
      delete_object = (\<lambda>k s. (Inr (), s))\<rparr>"

text \<open>
  The other three versions on two more pages, and a bucket that serves the three pages
  by the key marker of the request, as the service does.
\<close>

definition middle_page :: list_result where
  "middle_page =
     \<lparr>versions =
        [\<lparr>key = ''object2'', versionid = ''v1'', last_modified = 1633619700\<rparr>,
         \<lparr>key = ''object2'', versionid = ''v2'', last_modified = 1633622400\<rparr>],
      is_truncated = True,
      next_key_marker = ''object2'', next_versionid_marker = ''v2''\<rparr>"

definition last_page :: list_result where
  "last_page =
     \<lparr>versions =
        [\<lparr>key = ''object3'', versionid = ''v1'', last_modified = 1633622400\<rparr>],
      is_truncated = False,
      next_key_marker = [], next_versionid_marker = []\<rparr>"

definition three_pages_bucket :: "unit bucket" where
  "three_pages_bucket =
     \<lparr>bucket_name = ''bucket'',
      list_object_versions = (\<lambda>prefix key_marker versionid_marker max_keys s.
        (if key_marker = [] then Inr first_page
         else if key_marker = ''object1'' then Inr middle_page
         else Inr last_page, s)),
      copy_object = (\<lambda>source_bucket_name source_key target_key version s. (Inr (), s)),
      delete_object = (\<lambda>k s. (Inr (), s))\<rparr>"

text \<open>
  A bucket on which \<open>copy_object\<close> fails for \<open>object1\<close> and \<open>delete_object\<close> fails for
  \<open>object2\<close>, each with an error of the storage client.
\<close>

definition flaky_bucket :: "unit bucket" where
  "flaky_bucket =
     \<lparr>bucket_name = ''bucket'',
      list_object_versions = (\<lambda>prefix key_marker versionid_marker max_keys s.
        (Inr \<lparr>versions = test_versions, is_truncated = False,
              next_key_marker = [], next_versionid_marker = []\<rparr>, s)),
      copy_object = (\<lambda>source_bucket_name source_key target_key version s.
        (if source_key = ''object1'' then Inl (Exception ''NoSuchVersion'') else Inr (), s)),
      delete_object = (\<lambda>k s.
        (if k = ''object2'' then Inl (Exception ''AccessDenied'') else Inr (), s))\<rparr>"

text \<open>
  An iteration order for the sets of the examples: the elements in the order of a given
  list (which holds every key of the examples).
\<close>

definition in_order_of :: "string list \<Rightarrow> string set \<Rightarrow> string list" where
  "in_order_of order ks = filter (\<lambda>k. k \<in> ks) order"

text \<open>
  The events of \<open>recover_objects\<close> on the paged bucket whose second request fails.
\<close>

definition failed_listing_events :: "event list" where
  "failed_listing_events =
     [Log INFO (Str ''Starting recovery process for prefix '%s' up to time %sZ'')
        [Str ''prefix/'', Time 1633620600],
      Log DEBUG (Str ''Starting to get object versions for prefix: %s'') [Str ''prefix/''],
      Log DEBUG (Str ''Listing object versions with key_marker: %s, versionid_marker: %s'')
        [Str [], Str []],
      Call_list_object_versions ''prefix/'' [] [] 999,
      Return_list_object_versions first_page,
      Log DEBUG (Str ''Processing version for key: %s, version time: %s'')
        [Str ''object1'', Time 1633615200],
      Log DEBUG (Str ''Updating latest version for key: %s'') [Str ''object1''],
      Log DEBUG (Str ''Processing version for key: %s, version time: %s'')
        [Str ''object1'', Time 1633620300],
      Log DEBUG (Str ''Updating latest version for key: %s'') [Str ''object1''],
      Log DEBUG (Str ''Processing version for key: %s, version time: %s'')
        [Str ''object1'', Time 1633622400],
      Log DEBUG (Str ''Listing object versions with key_marker: %s, versionid_marker: %s'')
        [Str ''object1'', Str ''v3''],
      Call_list_object_versions ''prefix/'' ''object1'' ''v3'' 999,
      Raise_list_object_versions (Exception ''ServerError'')]"

section \<open>The scan\<close>

lemma fromtimestamp_Inr: "fromtimestamp ts = Inr t \<longleftrightarrow> representable ts \<and> t = ts"
  by (auto simp: fromtimestamp_def representable_def)

lemma process_version_Inr:
  "process_version rt st v = (Inr st', evs) \<Longrightarrow> representable (last_modified v) \<and> st' = plan_step rt v st"
  by (cases st) (auto simp: Let_def fromtimestamp_def representable_def info_of_def
      split: prod.splits if_splits option.splits sum.splits)

lemma process_version_representable:
  "representable (last_modified v) \<Longrightarrow> \<exists>evs. process_version rt st v = (Inr (plan_step rt v st), evs)"
  by (cases st) (auto simp: Let_def fromtimestamp_def representable_def info_of_def
      split: prod.splits if_splits option.splits sum.splits)

lemma process_versions_Inr:
  "process_versions rt st vs = (Inr st', evs) \<Longrightarrow>
     (\<forall>v\<in>set vs. representable (last_modified v)) \<and> st' = fold (plan_step rt) vs st"
proof (induction vs arbitrary: st evs)
  case Nil
  then show ?case by simp
next
  case (Cons v vs)
  from Cons.prems obtain st1 e1 e2 where
    1: "process_version rt st v = (Inr st1, e1)" and
    2: "process_versions rt st1 vs = (Inr st', e2)"
    by (auto split: prod.splits sum.splits)
  from process_version_Inr [OF 1] Cons.IH [OF 2] show ?case by simp
qed

lemma process_versions_representable:
  "\<forall>v\<in>set vs. representable (last_modified v) \<Longrightarrow>
     \<exists>evs. process_versions rt st vs = (Inr (fold (plan_step rt) vs st), evs)"
proof (induction vs arbitrary: st)
  case Nil
  then show ?case by simp
next
  case (Cons v vs)
  from Cons.prems obtain e1 where 1: "process_version rt st v = (Inr (plan_step rt v st), e1)"
    using process_version_representable by (metis list.set_intros(1))
  from Cons obtain e2 where 2: "process_versions rt (plan_step rt v st) vs = (Inr (fold (plan_step rt) vs (plan_step rt v st)), e2)"
    by (metis list.set_intros(2))
  show ?case using 1 2 by simp
qed

lemma eligible_snoc:
  "eligible rt k (vs @ [v]) =
     eligible rt k vs @ (if key v = k \<and> last_modified v \<le> rt then [v] else [])"
  by (simp add: eligible_def)

lemma scan_lookup_None:
  "map_of (fst (scan rt vs)) k = None \<longleftrightarrow> eligible rt k vs = []"
proof (induction vs rule: rev_induct)
  case Nil
  show ?case by (simp add: eligible_def)
next
  case (snoc v vs)
  obtain lv ks where st: "scan rt vs = (lv, ks)" by (cases "scan rt vs")
  with snoc show ?case
    by (auto simp: eligible_snoc update_conv' split: option.splits)
qed

lemma scan_version_time:
  "map_of (fst (scan rt vs)) k = Some i \<Longrightarrow>
     version_time i = Max (set (map last_modified (eligible rt k vs)))"
proof (induction vs arbitrary: i rule: rev_induct)
  case Nil
  then show ?case by simp
next
  case (snoc v vs)
  obtain lv ks where st: "scan rt vs = (lv, ks)" by (cases "scan rt vs")
  have none: "map_of lv k = None \<longleftrightarrow> eligible rt k vs = []"
    using scan_lookup_None [of rt vs k] st by simp
  show ?case
  proof (cases "key v = k \<and> last_modified v \<le> rt")
    case False
    with snoc st show ?thesis
      by (auto simp: eligible_snoc update_conv' split: option.splits if_splits)
  next
    case True
    show ?thesis
    proof (cases "map_of lv k")
      case None
      with True snoc.prems st none show ?thesis
        by (auto simp: eligible_snoc update_conv' info_of_def)
    next
      case (Some cur)
      with none have ne: "set (map last_modified (eligible rt k vs)) \<noteq> {}" by auto
      from Some st snoc.IH have cur: "version_time cur = Max (set (map last_modified (eligible rt k vs)))"
        by simp
      have "Max (set (map last_modified (eligible rt k (vs @ [v])))) =
            max (last_modified v) (Max (set (map last_modified (eligible rt k vs))))"
        using True ne by (simp add: eligible_snoc)
      with True Some snoc.prems st cur show ?thesis
        by (auto simp: update_conv' info_of_def split: if_splits)
    qed
  qed
qed

lemma scan_orphan:
  "k \<in> snd (scan rt vs) \<longleftrightarrow> k \<in> key ` set vs \<and> eligible rt k vs = []"
proof (induction vs rule: rev_induct)
  case Nil
  show ?case by simp
next
  case (snoc v vs)
  obtain lv ks where st: "scan rt vs = (lv, ks)" by (cases "scan rt vs")
  have none: "\<And>k. map_of lv k = None \<longleftrightarrow> eligible rt k vs = []"
    using scan_lookup_None [of rt vs] st by simp
  from snoc st none show ?case
    by (auto simp: eligible_snoc)
qed

lemma eligible_empty_iff:
  "eligible rt k vs = [] \<longleftrightarrow> (\<forall>v\<in>set vs. key v = k \<longrightarrow> rt < last_modified v)"
  by (auto simp: eligible_def filter_empty_conv)

lemma set_eligible: "set (eligible rt k vs) = {v \<in> set vs. key v = k \<and> last_modified v \<le> rt}"
  by (auto simp: eligible_def)

lemma eligible_append: "eligible rt k (xs @ ys) = eligible rt k xs @ eligible rt k ys"
  by (simp add: eligible_def)

lemma process_versions_append:
  "process_versions rt st (xs @ ys) =
     (case process_versions rt st xs of
        (Inl e, evs) \<Rightarrow> (Inl e, evs)
      | (Inr st', evs) \<Rightarrow>
          (case process_versions rt st' ys of (r, evs') \<Rightarrow> (r, evs @ evs')))"
  by (induction xs arbitrary: st) (auto split: prod.splits sum.splits)

lemma fold_keeps_entry:
  "map_of (fst st) k = Some i \<Longrightarrow>
   \<forall>u\<in>set ys. key u = k \<and> last_modified u \<le> rt \<longrightarrow> last_modified u \<le> version_time i \<Longrightarrow>
   map_of (fst (fold (plan_step rt) ys st)) k = Some i"
proof (induction ys arbitrary: st)
  case Nil
  then show ?case by simp
next
  case (Cons u ys)
  obtain lv ks where st: "st = (lv, ks)" by (cases st)
  have "map_of (fst (plan_step rt u st)) k = Some i"
    using Cons.prems st by (auto simp: update_conv' split: option.splits)
  from Cons.IH [OF this] Cons.prems(2) show ?case by simp
qed

lemma scan_first_wins:
  assumes "last_modified v \<le> rt"
    and earlier: "\<forall>u\<in>set xs. key u = key v \<and> last_modified u \<le> rt \<longrightarrow> last_modified u < last_modified v"
    and later: "\<forall>u\<in>set ys. key u = key v \<and> last_modified u \<le> rt \<longrightarrow> last_modified u \<le> last_modified v"
  shows "map_of (fst (scan rt (xs @ v # ys))) (key v) = Some (info_of v)"
proof -
  obtain lv ks where st: "scan rt xs = (lv, ks)" by (cases "scan rt xs")
  have newer: "version_time cur < last_modified v" if cur: "map_of lv (key v) = Some cur" for cur
  proof -
    let ?ts = "set (map last_modified (eligible rt (key v) xs))"
    from scan_version_time [of rt xs "key v" cur] st cur have t: "version_time cur = Max ?ts"
      by simp
    from scan_lookup_None [of rt xs "key v"] st cur have "?ts \<noteq> {}" by auto
    then have "Max ?ts \<in> ?ts" by (intro Max_in) auto
    then obtain u where "u \<in> set xs" "key u = key v" "last_modified u \<le> rt"
      "Max ?ts = last_modified u"
      by (auto simp: eligible_def)
    with earlier t show ?thesis by auto
  qed
  have "map_of (fst (plan_step rt v (scan rt xs))) (key v) = Some (info_of v)"
    using st assms(1) newer by (auto simp: update_conv' split: option.splits)
  from fold_keeps_entry [OF this, of ys rt] later
  show ?thesis by (simp add: info_of_def)
qed

lemma scan_distinct: "distinct (map fst (fst (scan rt vs)))"
proof (induction vs rule: rev_induct)
  case Nil
  show ?case by simp
next
  case (snoc v vs)
  obtain lv ks where "scan rt vs = (lv, ks)" by (cases "scan rt vs")
  with snoc show ?case by (simp add: distinct_update)
qed

section \<open>The events of the scan\<close>

lemma returned_pages_append [simp]:
  "returned_pages (xs @ ys) = returned_pages xs @ returned_pages ys"
  by (simp add: returned_pages_def)

lemma returned_pages_Nil [simp]: "returned_pages [] = []"
  by (simp add: returned_pages_def)

lemma returned_pages_Cons [simp]: "returned_pages (e # evs) = page_of e @ returned_pages evs"
  by (simp add: returned_pages_def)

lemma returned_pages_logs: "\<forall>e\<in>set evs. is_log e \<Longrightarrow> returned_pages evs = []"
  by (induction evs) (auto elim: is_log.elims)

lemma list_calls_logs: "\<forall>e\<in>set evs. is_log e \<Longrightarrow> list_calls evs = []"
  by (induction evs) (auto simp: list_calls_def elim: is_log.elims)

lemma process_version_logs: "process_version rt st v = (r, evs) \<Longrightarrow> \<forall>e\<in>set evs. is_log e"
  by (cases st) (auto simp: Let_def split: sum.splits if_splits)

lemma process_versions_logs: "process_versions rt st vs = (r, evs) \<Longrightarrow> \<forall>e\<in>set evs. is_log e"
proof (induction vs arbitrary: st r evs)
  case Nil
  then show ?case by simp
next
  case (Cons v vs)
  obtain r1 e1 where 1: "process_version rt st v = (r1, e1)" by (cases "process_version rt st v")
  show ?case
  proof (cases r1)
    case (Inl e)
    with 1 Cons.prems process_version_logs [OF 1] show ?thesis by simp
  next
    case (Inr st1)
    obtain r2 e2 where 2: "process_versions rt st1 vs = (r2, e2)"
      by (cases "process_versions rt st1 vs")
    from 1 2 Inr Cons.prems have "evs = e1 @ e2" by simp
    with process_version_logs [OF 1] Cons.IH [OF 2] show ?thesis by auto
  qed
qed

lemma process_version_planning:
  "process_version rt st v = (r, evs) \<Longrightarrow> \<forall>e\<in>set evs. planning_event e"
  by (cases st) (auto simp: Let_def planning_event_def split: sum.splits if_splits)

lemma process_versions_planning:
  "process_versions rt st vs = (r, evs) \<Longrightarrow> \<forall>e\<in>set evs. planning_event e"
proof (induction vs arbitrary: st r evs)
  case Nil
  then show ?case by simp
next
  case (Cons v vs)
  obtain r1 e1 where 1: "process_version rt st v = (r1, e1)" by (cases "process_version rt st v")
  show ?case
  proof (cases r1)
    case (Inl e)
    with 1 Cons.prems process_version_planning [OF 1] show ?thesis by simp
  next
    case (Inr st1)
    obtain r2 e2 where 2: "process_versions rt st1 vs = (r2, e2)"
      by (cases "process_versions rt st1 vs")
    from 1 2 Inr Cons.prems have "evs = e1 @ e2" by simp
    with process_version_planning [OF 1] Cons.IH [OF 2] show ?thesis by auto
  qed
qed

section \<open>The pagination loop\<close>

lemma list_loop_Inr:
  assumes "list_loop b p rt km vm st s tr = Some y"
  shows "\<forall>st' s' tr'. y = (Inr st', s', tr') \<longrightarrow>
    (\<exists>evs. tr' = tr @ evs \<and>
      (\<forall>v\<in>set (observed_versions evs). representable (last_modified v)) \<and>
      st' = fold (plan_step rt) (observed_versions evs) st \<and>
      returned_pages evs \<noteq> [] \<and> \<not> is_truncated (last (returned_pages evs)) \<and>
      (\<forall>r\<in>set (butlast (returned_pages evs)). is_truncated r) \<and>
      list_calls evs = listing_requests p km vm (returned_pages evs))"
  using assms
proof (induction rule: list_loop.raw_induct [rotated 1, consumes 1])
  case (1 f b p rt km vm st s tr y)
  let ?head = "[Log DEBUG (Str ''Listing object versions with key_marker: %s, versionid_marker: %s'')
               [Str km, Str vm], Call_list_object_versions p km vm 999]"
  obtain resp s1 where resp: "list_object_versions b p km vm 999 s = (resp, s1)"
    by (cases "list_object_versions b p km vm 999 s")
  show ?case
  proof (cases resp)
    case (Inl e)
    with 1(2) resp show ?thesis by auto
  next
    case (Inr r)
    obtain out evs1 where scan: "process_versions rt st (versions r) = (out, evs1)"
      by (cases "process_versions rt st (versions r)")
    have logs: "returned_pages evs1 = []" "list_calls evs1 = []"
      using process_versions_logs [OF scan] returned_pages_logs list_calls_logs by blast+
    show ?thesis
    proof (cases out)
      case (Inl e)
      with 1(2) resp Inr scan show ?thesis by auto
    next
      case st1: (Inr st1)
      note facts = process_versions_Inr [OF scan [unfolded st1]]
      show ?thesis
      proof (cases "is_truncated r")
        case False
        with 1(2) resp Inr scan st1 have y: "y = (Inr st1, s1, (tr @ ?head) @ Return_list_object_versions r # evs1)"
          by simp
        show ?thesis
          using y facts logs False
          by (auto simp: observed_versions_def list_calls_def listing_requests_def)
      next
        case True
        with 1(2) resp Inr scan st1 have rec:
          "f b p rt (next_key_marker r) (next_versionid_marker r) st1 s1
             ((tr @ ?head) @ Return_list_object_versions r # evs1) = Some y"
          by simp
        show ?thesis
        proof (intro allI impI)
          fix st' s' tr'
          assume y: "y = (Inr st', s', tr')"
          from 1(1) [OF rec] y obtain evs2 where
            tr': "tr' = ((tr @ ?head) @ Return_list_object_versions r # evs1) @ evs2" and
            rep: "\<forall>v\<in>set (observed_versions evs2). representable (last_modified v)" and
            st': "st' = fold (plan_step rt) (observed_versions evs2) st1" and
            ne: "returned_pages evs2 \<noteq> []" and
            fin: "\<not> is_truncated (last (returned_pages evs2))" and
            trunc: "\<forall>r\<in>set (butlast (returned_pages evs2)). is_truncated r" and
            calls: "list_calls evs2 = listing_requests p (next_key_marker r) (next_versionid_marker r) (returned_pages evs2)"
            by blast
          let ?evs = "?head @ Return_list_object_versions r # evs1 @ evs2"
          have pages: "returned_pages ?evs = r # returned_pages evs2"
            using logs by simp
          have obs: "observed_versions ?evs = versions r @ observed_versions evs2"
            using pages by (simp add: observed_versions_def)
          have "tr' = tr @ ?evs" using tr' by simp
          moreover have "\<forall>v\<in>set (observed_versions ?evs). representable (last_modified v)"
            using obs rep facts by auto
          moreover have "st' = fold (plan_step rt) (observed_versions ?evs) st"
            using obs st' facts by simp
          moreover have "returned_pages ?evs \<noteq> []" using pages by simp
          moreover have "\<not> is_truncated (last (returned_pages ?evs))"
            using pages ne fin by simp
          moreover have "\<forall>r\<in>set (butlast (returned_pages ?evs)). is_truncated r"
            using pages ne trunc True by simp
          moreover have "list_calls ?evs = listing_requests p km vm (returned_pages ?evs)"
            using pages ne calls logs by (simp add: list_calls_def listing_requests_def)
          ultimately show "\<exists>evs. tr' = tr @ evs \<and>
              (\<forall>v\<in>set (observed_versions evs). representable (last_modified v)) \<and>
              st' = fold (plan_step rt) (observed_versions evs) st \<and>
              returned_pages evs \<noteq> [] \<and> \<not> is_truncated (last (returned_pages evs)) \<and>
              (\<forall>r\<in>set (butlast (returned_pages evs)). is_truncated r) \<and>
              list_calls evs = listing_requests p km vm (returned_pages evs)"
            by blast
        qed
      qed
    qed
  qed
qed

lemma list_loop_any:
  assumes "list_loop b p rt km vm st s tr = Some y"
  shows "\<forall>out s' tr'. y = (out, s', tr') \<longrightarrow> (\<exists>evs. tr' = tr @ evs \<and> listing_trace p out evs)"
  using assms
proof (induction rule: list_loop.raw_induct [rotated 1, consumes 1])
  case (1 f b p rt km vm st s tr y)
  let ?head = "[Log DEBUG (Str ''Listing object versions with key_marker: %s, versionid_marker: %s'')
               [Str km, Str vm], Call_list_object_versions p km vm 999]"
  have head: "\<forall>e\<in>set ?head. planning_event e" by (simp add: planning_event_def)
  obtain resp s1 where resp: "list_object_versions b p km vm 999 s = (resp, s1)"
    by (cases "list_object_versions b p km vm 999 s")
  show ?case
  proof (cases resp)
    case (Inl e)
    with 1(2) resp have "y = (Inl e, s1, tr @ ?head @ [Raise_list_object_versions e])" by simp
    moreover have "listing_trace p (Inl e) (?head @ [Raise_list_object_versions e])"
      by (simp add: listing_trace_def planning_event_def list_calls_def)
    ultimately show ?thesis by blast
  next
    case (Inr r)
    obtain out1 evs1 where scan: "process_versions rt st (versions r) = (out1, evs1)"
      by (cases "process_versions rt st (versions r)")
    note logs = process_versions_logs [OF scan]
    note plain = process_versions_planning [OF scan]
    let ?page = "?head @ Return_list_object_versions r # evs1"
    have page: "listing_trace p out ?page" for out
      using plain logs list_calls_logs [OF logs]
      by (auto simp: listing_trace_def planning_event_def list_calls_def)
    show ?thesis
    proof (cases "\<exists>st1. out1 = Inr st1 \<and> is_truncated r")
      case False
      with 1(2) resp Inr scan have "y = (out1, s1, tr @ ?page)"
        by (cases out1) auto
      with page show ?thesis by blast
    next
      case True
      then obtain st1 where st1: "out1 = Inr st1" and trunc: "is_truncated r" by blast
      with 1(2) resp Inr scan have rec:
        "f b p rt (next_key_marker r) (next_versionid_marker r) st1 s1 (tr @ ?page) = Some y"
        by simp
      show ?thesis
      proof (intro allI impI)
        fix out s' tr'
        assume y: "y = (out, s', tr')"
        from 1(1) [OF rec] y obtain evs2 where
          tr': "tr' = (tr @ ?page) @ evs2" and tail: "listing_trace p out evs2"
          by blast
        have "listing_trace p out (?page @ evs2)"
          using page [of out] tail logs
          by (auto simp: listing_trace_def list_calls_def)
        with tr' show "\<exists>evs. tr' = tr @ evs \<and> listing_trace p out evs"
          by (metis append.assoc)
      qed
    qed
  qed
qed

lemma list_loop_terminates:
  "listing_ends b p n km vm s \<Longrightarrow>
     \<exists>out s' evs. list_loop b p rt km vm st s tr = Some (out, s', tr @ evs) \<and>
        length (list_calls evs) \<le> Suc n"
proof (induction n arbitrary: km vm s st tr)
  case 0
  obtain resp s1 where resp: "list_object_versions b p km vm 999 s = (resp, s1)"
    by (cases "list_object_versions b p km vm 999 s")
  show ?case
  proof (cases resp)
    case (Inl e)
    with resp show ?thesis
      by (subst list_loop.simps) (simp add: list_calls_def)
  next
    case (Inr r)
    obtain out1 evs1 where scan: "process_versions rt st (versions r) = (out1, evs1)"
      by (cases "process_versions rt st (versions r)")
    have logs: "list_calls evs1 = []"
      using process_versions_logs [OF scan] list_calls_logs by blast
    from 0 resp Inr have "\<not> is_truncated r" by simp
    with resp Inr scan logs show ?thesis
      by (subst list_loop.simps) (cases out1; simp add: list_calls_def)
  qed
next
  case (Suc n)
  obtain resp s1 where resp: "list_object_versions b p km vm 999 s = (resp, s1)"
    by (cases "list_object_versions b p km vm 999 s")
  let ?head = "[Log DEBUG (Str ''Listing object versions with key_marker: %s, versionid_marker: %s'')
               [Str km, Str vm], Call_list_object_versions p km vm 999]"
  show ?case
  proof (cases resp)
    case (Inl e)
    with resp show ?thesis
      by (subst list_loop.simps) (simp add: list_calls_def)
  next
    case (Inr r)
    obtain out1 evs1 where scan: "process_versions rt st (versions r) = (out1, evs1)"
      by (cases "process_versions rt st (versions r)")
    have logs: "list_calls evs1 = []"
      using process_versions_logs [OF scan] list_calls_logs by blast
    show ?thesis
    proof (cases "\<exists>st1. out1 = Inr st1 \<and> is_truncated r")
      case False
      with resp Inr scan logs show ?thesis
        by (subst list_loop.simps) (cases out1; simp add: list_calls_def)
    next
      case True
      then obtain st1 where st1: "out1 = Inr st1" and trunc: "is_truncated r" by blast
      from Suc.prems resp Inr trunc
      have "listing_ends b p n (next_key_marker r) (next_versionid_marker r) s1" by simp
      from Suc.IH [OF this, of st1 "tr @ ?head @ Return_list_object_versions r # evs1"]
      obtain out s' evs2 where
        rec: "list_loop b p rt (next_key_marker r) (next_versionid_marker r) st1 s1
                (tr @ ?head @ Return_list_object_versions r # evs1) =
              Some (out, s', (tr @ ?head @ Return_list_object_versions r # evs1) @ evs2)" and
        len: "length (list_calls evs2) \<le> Suc n"
        by blast
      have "list_loop b p rt km vm st s tr =
              Some (out, s', tr @ (?head @ Return_list_object_versions r # evs1 @ evs2))"
        using resp Inr scan st1 trunc rec by (subst list_loop.simps) simp
      moreover have "length (list_calls (?head @ Return_list_object_versions r # evs1 @ evs2)) \<le> Suc (Suc n)"
        using len logs by (simp add: list_calls_def)
      ultimately show ?thesis by blast
    qed
  qed
qed

lemma get_object_versions_Inr:
  assumes "get_object_versions b p rt s = Some (Inr st', s', evs)"
  shows "(\<forall>v\<in>set (observed_versions evs). representable (last_modified v)) \<and>
      st' = scan rt (observed_versions evs) \<and>
      returned_pages evs \<noteq> [] \<and> \<not> is_truncated (last (returned_pages evs)) \<and>
      (\<forall>r\<in>set (butlast (returned_pages evs)). is_truncated r) \<and>
      list_calls evs = listing_requests p [] [] (returned_pages evs)"
proof -
  let ?start = "Log DEBUG (Str ''Starting to get object versions for prefix: %s'') [Str p]"
  from assms obtain tr fin where
    loop: "list_loop b p rt [] [] ([], {}) s [?start] = Some (Inr st', s', tr)" and
    evs: "evs = tr @ [fin]" and fin: "is_log fin"
    by (auto simp: get_object_versions_def split: option.splits sum.splits prod.splits)
  from list_loop_Inr [OF loop] obtain evs0 where
    tr: "tr = [?start] @ evs0" and
    rest: "(\<forall>v\<in>set (observed_versions evs0). representable (last_modified v)) \<and>
      st' = scan rt (observed_versions evs0) \<and>
      returned_pages evs0 \<noteq> [] \<and> \<not> is_truncated (last (returned_pages evs0)) \<and>
      (\<forall>r\<in>set (butlast (returned_pages evs0)). is_truncated r) \<and>
      list_calls evs0 = listing_requests p [] [] (returned_pages evs0)"
    by blast
  have "page_of fin = []" "\<not> is_list_call fin"
    using fin by (auto elim: is_log.elims)
  then have "returned_pages evs = returned_pages evs0" "list_calls evs = list_calls evs0"
    using evs tr by (simp_all add: list_calls_def)
  with rest show ?thesis by (simp add: observed_versions_def)
qed

lemma latest_versions_is_dict:
  assumes "get_object_versions b p rt s = Some (Inr (lv, ks), s', evs)"
  shows "distinct (map fst lv)"
proof -
  from get_object_versions_Inr [OF assms] have "scan rt (observed_versions evs) = (lv, ks)"
    by simp
  with scan_distinct [of rt "observed_versions evs"] show ?thesis by simp
qed

lemma get_object_versions_trace:
  assumes "get_object_versions b p rt s = Some (out, s', evs)"
  shows "listing_trace p out evs"
proof -
  let ?start = "Log DEBUG (Str ''Starting to get object versions for prefix: %s'') [Str p]"
  have start: "planning_event ?start" "\<not> is_list_call ?start"
    by (simp_all add: planning_event_def)
  obtain y where loop: "list_loop b p rt [] [] ([], {}) s [?start] = Some y"
    using assms by (auto simp: get_object_versions_def split: option.splits)
  obtain out0 s0 tr where y: "y = (out0, s0, tr)" by (cases y)
  from list_loop_any [OF loop] y obtain evs0 where
    tr: "tr = [?start] @ evs0" and lt: "listing_trace p out0 evs0"
    by blast
  show ?thesis
  proof (cases out0)
    case (Inl e)
    with assms loop y tr have "out = out0" "evs = ?start # evs0"
      by (auto simp: get_object_versions_def)
    with lt start show ?thesis
      by (auto simp: listing_trace_def list_calls_def)
  next
    case (Inr st)
    obtain lv ks where st: "st = (lv, ks)" by (cases st)
    let ?fin = "Log DEBUG
        (Str ''Finished getting object versions. Found %d latest versions and %d keys without older versions'')
        [Count (length lv), Count (card ks)]"
    have fin: "planning_event ?fin" by (simp add: planning_event_def)
    from Inr st assms loop y tr have "out = out0" "evs = ?start # evs0 @ [?fin]"
      by (auto simp: get_object_versions_def)
    with lt start fin Inr show ?thesis
      by (auto simp: listing_trace_def list_calls_def)
  qed
qed

lemma get_object_versions_terminates:
  assumes "listing_ends b p n [] [] s"
  shows "\<exists>out s' evs. get_object_versions b p rt s = Some (out, s', evs) \<and>
           length (list_calls evs) \<le> Suc n"
proof -
  let ?start = "Log DEBUG (Str ''Starting to get object versions for prefix: %s'') [Str p]"
  from list_loop_terminates [OF assms, of rt "([], {})" "[?start]"] obtain out s' evs where
    loop: "list_loop b p rt [] [] ([], {}) s [?start] = Some (out, s', [?start] @ evs)" and
    len: "length (list_calls evs) \<le> Suc n"
    by blast
  show ?thesis
  proof (cases out)
    case (Inl e)
    with loop len show ?thesis
      by (simp add: get_object_versions_def list_calls_def)
  next
    case (Inr st)
    with loop len show ?thesis
      by (cases st) (simp add: get_object_versions_def list_calls_def)
  qed
qed

lemma listing_pages:
  "listing b p n km vm s = Some (pages, s') \<Longrightarrow> pages \<noteq> [] \<and> length pages \<le> Suc n"
proof (induction n arbitrary: km vm s pages)
  case 0
  then show ?case by (auto split: prod.splits sum.splits if_splits)
next
  case (Suc n)
  obtain resp s1 where resp: "list_object_versions b p km vm 999 s = (resp, s1)"
    by (cases "list_object_versions b p km vm 999 s")
  show ?case
  proof (cases resp)
    case (Inl e)
    with Suc.prems resp show ?thesis by simp
  next
    case (Inr r)
    show ?thesis
    proof (cases "is_truncated r")
      case False
      with Suc.prems resp Inr show ?thesis by auto
    next
      case True
      with Suc.prems resp Inr obtain rs where
        rs: "listing b p n (next_key_marker r) (next_versionid_marker r) s1 = Some (rs, s')"
        and pages: "pages = r # rs"
        by (auto split: option.splits)
      from Suc.IH [OF rs] pages show ?thesis by simp
    qed
  qed
qed

lemma list_loop_reads_listing:
  "listing b p n km vm s = Some (pages, s') \<Longrightarrow>
   \<forall>v\<in>set (concat (map versions pages)). representable (last_modified v) \<Longrightarrow>
   \<exists>evs. list_loop b p rt km vm st s tr =
            Some (Inr (fold (plan_step rt) (concat (map versions pages)) st), s', tr @ evs) \<and>
          returned_pages evs = pages \<and>
          list_calls evs = listing_requests p km vm pages"
proof (induction n arbitrary: km vm s st tr pages)
  case 0
  obtain resp s1 where resp: "list_object_versions b p km vm 999 s = (resp, s1)"
    by (cases "list_object_versions b p km vm 999 s")
  from 0(1) resp obtain r where r: "resp = Inr r" "\<not> is_truncated r" "pages = [r]" "s' = s1"
    by (cases resp) (auto split: if_splits)
  from 0(2) r have "\<forall>v\<in>set (versions r). representable (last_modified v)" by simp
  from process_versions_representable [OF this, of rt st] obtain evs1 where
    scan: "process_versions rt st (versions r) = (Inr (fold (plan_step rt) (versions r) st), evs1)"
    by blast
  have logs: "returned_pages evs1 = []" "list_calls evs1 = []"
    using process_versions_logs [OF scan] returned_pages_logs list_calls_logs by blast+
  show ?case
    using resp r scan logs
    by (subst list_loop.simps) (simp add: list_calls_def listing_requests_def)
next
  case (Suc n)
  obtain resp s1 where resp: "list_object_versions b p km vm 999 s = (resp, s1)"
    by (cases "list_object_versions b p km vm 999 s")
  from Suc.prems(1) resp obtain r where r: "resp = Inr r"
    by (cases resp) auto
  let ?head = "[Log DEBUG (Str ''Listing object versions with key_marker: %s, versionid_marker: %s'')
               [Str km, Str vm], Call_list_object_versions p km vm 999]"
  show ?case
  proof (cases "is_truncated r")
    case False
    with Suc.prems(1) resp r have pages: "pages = [r]" "s' = s1" by auto
    from Suc.prems(2) pages have "\<forall>v\<in>set (versions r). representable (last_modified v)" by simp
    from process_versions_representable [OF this, of rt st] obtain evs1 where
      scan: "process_versions rt st (versions r) = (Inr (fold (plan_step rt) (versions r) st), evs1)"
      by blast
    have logs: "returned_pages evs1 = []" "list_calls evs1 = []"
      using process_versions_logs [OF scan] returned_pages_logs list_calls_logs by blast+
    show ?thesis
      using resp r False pages scan logs
      by (subst list_loop.simps) (simp add: list_calls_def listing_requests_def)
  next
    case True
    with Suc.prems(1) resp r obtain rs where
      rs: "listing b p n (next_key_marker r) (next_versionid_marker r) s1 = Some (rs, s')"
      and pages: "pages = r # rs"
      by (auto split: option.splits)
    from listing_pages [OF rs] have ne: "rs \<noteq> []" by simp
    from Suc.prems(2) pages have
      rep1: "\<forall>v\<in>set (versions r). representable (last_modified v)" and
      rep2: "\<forall>v\<in>set (concat (map versions rs)). representable (last_modified v)"
      by simp_all
    from process_versions_representable [OF rep1, of rt st] obtain evs1 where
      scan: "process_versions rt st (versions r) = (Inr (fold (plan_step rt) (versions r) st), evs1)"
      by blast
    have logs: "returned_pages evs1 = []" "list_calls evs1 = []"
      using process_versions_logs [OF scan] returned_pages_logs list_calls_logs by blast+
    let ?st1 = "fold (plan_step rt) (versions r) st"
    let ?tr1 = "tr @ ?head @ Return_list_object_versions r # evs1"
    from Suc.IH [OF rs rep2, of ?st1 ?tr1] obtain evs2 where
      rec: "list_loop b p rt (next_key_marker r) (next_versionid_marker r) ?st1 s1 ?tr1 =
              Some (Inr (fold (plan_step rt) (concat (map versions rs)) ?st1), s', ?tr1 @ evs2)"
      and pages2: "returned_pages evs2 = rs"
      and calls2: "list_calls evs2 =
                     listing_requests p (next_key_marker r) (next_versionid_marker r) rs"
      by blast
    let ?evs = "?head @ Return_list_object_versions r # evs1 @ evs2"
    have "list_loop b p rt km vm st s tr =
            Some (Inr (fold (plan_step rt) (concat (map versions pages)) st), s', tr @ ?evs)"
      using resp r True scan rec pages by (subst list_loop.simps) simp
    moreover have "returned_pages ?evs = pages"
      using logs pages2 pages by simp
    moreover have "list_calls ?evs = listing_requests p km vm pages"
      using logs calls2 pages ne by (simp add: list_calls_def listing_requests_def)
    ultimately show ?thesis by blast
  qed
qed

lemma get_object_versions_reads_listing:
  assumes "listing b p n [] [] s = Some (pages, s')"
    and "\<forall>v\<in>set (concat (map versions pages)). representable (last_modified v)"
  shows "\<exists>plan evs. get_object_versions b p rt s = Some (Inr plan, s', evs) \<and>
           fst (process_versions rt ([], {}) (concat (map versions pages))) = Inr plan \<and>
           returned_pages evs = pages \<and>
           list_calls evs = listing_requests p [] [] pages \<and>
           length pages \<le> Suc n"
proof -
  let ?start = "Log DEBUG (Str ''Starting to get object versions for prefix: %s'') [Str p]"
  let ?vs = "concat (map versions pages)"
  obtain lv ks where plan: "scan rt ?vs = (lv, ks)" by (cases "scan rt ?vs")
  from list_loop_reads_listing [OF assms, of rt "([], {})" "[?start]"] plan obtain evs0 where
    loop: "list_loop b p rt [] [] ([], {}) s [?start] = Some (Inr (lv, ks), s', [?start] @ evs0)"
    and pages: "returned_pages evs0 = pages"
    and calls: "list_calls evs0 = listing_requests p [] [] pages"
    by auto
  let ?fin = "Log DEBUG
      (Str ''Finished getting object versions. Found %d latest versions and %d keys without older versions'')
      [Count (length lv), Count (card ks)]"
  from loop have run: "get_object_versions b p rt s =
      Some (Inr (lv, ks), s', ?start # evs0 @ [?fin])"
    by (simp add: get_object_versions_def)
  from process_versions_representable [OF assms(2), of rt "([], {})"] plan
  have scan: "fst (process_versions rt ([], {}) ?vs) = Inr (lv, ks)" by auto
  have "returned_pages (?start # evs0 @ [?fin]) = pages"
    using pages by simp
  moreover have "list_calls (?start # evs0 @ [?fin]) = listing_requests p [] [] pages"
    using calls by (simp add: list_calls_def)
  ultimately show ?thesis
    using run scan listing_pages [OF assms(1)] by blast
qed

lemma list_loop_listing_sound:
  assumes "list_loop b p rt km vm st s tr = Some y"
  shows "\<forall>st' s' tr'. y = (Inr st', s', tr') \<longrightarrow>
    (\<exists>evs n. tr' = tr @ evs \<and> listing b p n km vm s = Some (returned_pages evs, s'))"
  using assms
proof (induction rule: list_loop.raw_induct [rotated 1, consumes 1])
  case (1 f b p rt km vm st s tr y)
  let ?head = "[Log DEBUG (Str ''Listing object versions with key_marker: %s, versionid_marker: %s'')
               [Str km, Str vm], Call_list_object_versions p km vm 999]"
  obtain resp s1 where resp: "list_object_versions b p km vm 999 s = (resp, s1)"
    by (cases "list_object_versions b p km vm 999 s")
  show ?case
  proof (cases resp)
    case (Inl e)
    with 1(2) resp show ?thesis by auto
  next
    case (Inr r)
    obtain out evs1 where scan: "process_versions rt st (versions r) = (out, evs1)"
      by (cases "process_versions rt st (versions r)")
    have logs: "returned_pages evs1 = []"
      using process_versions_logs [OF scan] returned_pages_logs by blast
    show ?thesis
    proof (cases out)
      case (Inl e)
      with 1(2) resp Inr scan show ?thesis by auto
    next
      case st1: (Inr st1)
      show ?thesis
      proof (cases "is_truncated r")
        case False
        with 1(2) resp Inr scan st1
        have y: "y = (Inr st1, s1, tr @ (?head @ Return_list_object_versions r # evs1))"
          by simp
        have "listing b p 0 km vm s = Some ([r], s1)"
          using resp Inr False by simp
        moreover have "returned_pages (?head @ Return_list_object_versions r # evs1) = [r]"
          using logs by simp
        ultimately show ?thesis using y by (metis prod.inject sum.inject(2))
      next
        case True
        with 1(2) resp Inr scan st1 have rec:
          "f b p rt (next_key_marker r) (next_versionid_marker r) st1 s1
             ((tr @ ?head) @ Return_list_object_versions r # evs1) = Some y"
          by simp
        show ?thesis
        proof (intro allI impI)
          fix st' s' tr'
          assume y: "y = (Inr st', s', tr')"
          from 1(1) [OF rec] y obtain evs2 n where
            tr': "tr' = ((tr @ ?head) @ Return_list_object_versions r # evs1) @ evs2" and
            lst: "listing b p n (next_key_marker r) (next_versionid_marker r) s1 =
                    Some (returned_pages evs2, s')"
            by blast
          let ?evs = "?head @ Return_list_object_versions r # evs1 @ evs2"
          have "tr' = tr @ ?evs" using tr' by simp
          moreover have "returned_pages ?evs = r # returned_pages evs2" using logs by simp
          moreover have "listing b p (Suc n) km vm s = Some (r # returned_pages evs2, s')"
            using resp Inr True lst by simp
          ultimately show "\<exists>evs n. tr' = tr @ evs \<and>
              listing b p n km vm s = Some (returned_pages evs, s')"
            by metis
        qed
      qed
    qed
  qed
qed

lemma get_object_versions_listing_sound:
  assumes "get_object_versions b p rt s = Some (Inr st, s', evs)"
  shows "\<exists>n. listing b p n [] [] s = Some (returned_pages evs, s')"
proof -
  let ?start = "Log DEBUG (Str ''Starting to get object versions for prefix: %s'') [Str p]"
  from assms obtain tr fin where
    loop: "list_loop b p rt [] [] ([], {}) s [?start] = Some (Inr st, s', tr)" and
    evs: "evs = tr @ [fin]" and fin: "is_log fin"
    by (auto simp: get_object_versions_def split: option.splits sum.splits prod.splits)
  from list_loop_listing_sound [OF loop] obtain evs0 n where
    tr: "tr = [?start] @ evs0" and
    lst: "listing b p n [] [] s = Some (returned_pages evs0, s')"
    by blast
  have "page_of fin = []" using fin by (auto elim: is_log.elims)
  then have "returned_pages evs = returned_pages evs0" using evs tr by simp
  with lst show ?thesis by auto
qed

lemma process_versions_Inl:
  assumes "process_versions rt st vs = (Inl e, evs)"
  shows "\<exists>v\<in>set vs. \<not> representable (last_modified v)"
proof (rule ccontr)
  assume "\<not> (\<exists>v\<in>set vs. \<not> representable (last_modified v))"
  then have "\<forall>v\<in>set vs. representable (last_modified v)" by simp
  from process_versions_representable [OF this, of rt st] assms show False by auto
qed

lemma list_loop_returns_only_if_listing_ends:
  assumes "list_loop b p rt km vm st s tr = Some y"
  shows "\<forall>out s' tr'. y = (out, s', tr') \<longrightarrow>
    (\<exists>evs. tr' = tr @ evs \<and>
       ((\<forall>v\<in>set (observed_versions evs). representable (last_modified v)) \<longrightarrow>
          (\<exists>n. listing_ends b p n km vm s)))"
  using assms
proof (induction rule: list_loop.raw_induct [rotated 1, consumes 1])
  case (1 f b p rt km vm st s tr y)
  let ?head = "[Log DEBUG (Str ''Listing object versions with key_marker: %s, versionid_marker: %s'')
               [Str km, Str vm], Call_list_object_versions p km vm 999]"
  obtain resp s1 where resp: "list_object_versions b p km vm 999 s = (resp, s1)"
    by (cases "list_object_versions b p km vm 999 s")
  show ?case
  proof (cases resp)
    case (Inl e)
    with resp have "listing_ends b p 0 km vm s" by simp
    moreover from 1(2) resp Inl
    have "y = (Inl e, s1, tr @ (?head @ [Raise_list_object_versions e]))" by simp
    ultimately show ?thesis by (metis prod.inject)
  next
    case (Inr r)
    obtain out1 evs1 where scan: "process_versions rt st (versions r) = (out1, evs1)"
      by (cases "process_versions rt st (versions r)")
    have logs: "returned_pages evs1 = []"
      using process_versions_logs [OF scan] returned_pages_logs by blast
    let ?page = "?head @ Return_list_object_versions r # evs1"
    have obs: "observed_versions (?page @ evs2) = versions r @ observed_versions evs2" for evs2
      using logs by (simp add: observed_versions_def)
    show ?thesis
    proof (cases out1)
      case (Inl e)
      with 1(2) resp Inr scan have y: "y = (Inl e, s1, tr @ ?page)" by simp
      from process_versions_Inl [OF scan [unfolded Inl]] obs [of "[]"]
      have "\<not> (\<forall>v\<in>set (observed_versions ?page). representable (last_modified v))"
        by auto
      with y show ?thesis by (metis prod.inject)
    next
      case st1: (Inr st1)
      show ?thesis
      proof (cases "is_truncated r")
        case False
        with 1(2) resp Inr scan st1 have y: "y = (Inr st1, s1, tr @ ?page)" by simp
        from resp Inr False have "listing_ends b p 0 km vm s" by simp
        with y show ?thesis by (metis prod.inject)
      next
        case True
        with 1(2) resp Inr scan st1 have rec:
          "f b p rt (next_key_marker r) (next_versionid_marker r) st1 s1
             ((tr @ ?head) @ Return_list_object_versions r # evs1) = Some y"
          by simp
        show ?thesis
        proof (intro allI impI)
          fix out s' tr'
          assume y: "y = (out, s', tr')"
          from 1(1) [OF rec] y obtain evs2 where
            tr': "tr' = ((tr @ ?head) @ Return_list_object_versions r # evs1) @ evs2" and
            ends: "(\<forall>v\<in>set (observed_versions evs2). representable (last_modified v)) \<longrightarrow>
                 (\<exists>n. listing_ends b p n (next_key_marker r) (next_versionid_marker r) s1)"
            by blast
          have "tr' = tr @ (?page @ evs2)" using tr' by simp
          moreover have "\<exists>n. listing_ends b p n km vm s"
            if "\<forall>v\<in>set (observed_versions (?page @ evs2)). representable (last_modified v)"
          proof -
            from that obs [of evs2]
            have "\<forall>v\<in>set (observed_versions evs2). representable (last_modified v)" by simp
            with ends obtain n where
              "listing_ends b p n (next_key_marker r) (next_versionid_marker r) s1" by blast
            with resp Inr True have "listing_ends b p (Suc n) km vm s" by simp
            then show ?thesis ..
          qed
          ultimately show "\<exists>evs. tr' = tr @ evs \<and>
             ((\<forall>v\<in>set (observed_versions evs). representable (last_modified v)) \<longrightarrow>
                (\<exists>n. listing_ends b p n km vm s))"
            by blast
        qed
      qed
    qed
  qed
qed

lemma get_object_versions_returns_only_if_listing_ends:
  assumes "get_object_versions b p rt s = Some (out, s', evs)"
    and "\<forall>v\<in>set (observed_versions evs). representable (last_modified v)"
  shows "\<exists>n. listing_ends b p n [] [] s"
proof -
  let ?start = "Log DEBUG (Str ''Starting to get object versions for prefix: %s'') [Str p]"
  obtain y where loop: "list_loop b p rt [] [] ([], {}) s [?start] = Some y"
    using assms(1) by (auto simp: get_object_versions_def split: option.splits)
  obtain out0 s0 tr where y: "y = (out0, s0, tr)" by (cases y)
  from list_loop_returns_only_if_listing_ends [OF loop] y obtain evs0 where
    tr: "tr = [?start] @ evs0" and
    ends: "(\<forall>v\<in>set (observed_versions evs0). representable (last_modified v)) \<longrightarrow>
             (\<exists>n. listing_ends b p n [] [] s)"
    by blast
  have "observed_versions evs = observed_versions evs0"
  proof (cases out0)
    case (Inl e)
    with assms(1) loop y tr have "evs = ?start # evs0"
      by (auto simp: get_object_versions_def)
    then show ?thesis by (simp add: observed_versions_def)
  next
    case (Inr st)
    with assms(1) loop y tr obtain fin where "evs = ?start # evs0 @ [fin]" "is_log fin"
      by (cases st) (auto simp: get_object_versions_def)
    moreover then have "page_of fin = []" by (auto elim: is_log.elims)
    ultimately show ?thesis by (simp add: observed_versions_def)
  qed
  with assms(2) ends show ?thesis by simp
qed

section \<open>The two apply loops\<close>

lemma for_each_append:
  "for_each body (xs @ ys) s =
     (case for_each body xs s of
        (Inl e, s1, evs1) \<Rightarrow> (Inl e, s1, evs1)
      | (Inr u, s1, evs1) \<Rightarrow>
          (case for_each body ys s1 of (r, s2, evs2) \<Rightarrow> (r, s2, evs1 @ evs2)))"
  by (induction xs arbitrary: s) (auto split: prod.splits sum.splits)

lemma for_each_events:
  assumes "\<And>x s r s' evs. body x s = (r, s', evs) \<Longrightarrow> \<forall>e\<in>set evs. P e"
    and "for_each body xs s = (r, s', evs)"
  shows "\<forall>e\<in>set evs. P e"
  using assms(2)
proof (induction xs arbitrary: s r s' evs)
  case Nil
  then show ?case by simp
next
  case (Cons x xs)
  obtain r1 s1 e1 where 1: "body x s = (r1, s1, e1)" by (cases "body x s")
  show ?case
  proof (cases r1)
    case (Inl e)
    with 1 Cons.prems assms(1) [OF 1] show ?thesis by simp
  next
    case (Inr u)
    obtain r2 s2 e2 where 2: "for_each body xs s1 = (r2, s2, e2)" by (cases "for_each body xs s1")
    from 1 2 Inr Cons.prems have "evs = e1 @ e2" by simp
    with assms(1) [OF 1] Cons.IH [OF 2] show ?thesis by auto
  qed
qed

lemma for_each_total:
  assumes "\<And>x s. x \<in> set xs \<Longrightarrow>
             \<exists>s' evs. body x s = (Inr (), s', evs) \<and> filter is_mutating_call evs = [c x]"
  shows "\<exists>s' evs. for_each body xs s = (Inr (), s', evs) \<and>
           filter is_mutating_call evs = map c xs"
  using assms
proof (induction xs arbitrary: s)
  case Nil
  then show ?case by simp
next
  case (Cons x xs)
  from Cons.prems [of x s] obtain s1 e1 where
    1: "body x s = (Inr (), s1, e1)" "filter is_mutating_call e1 = [c x]" by auto
  from Cons.IH [of s1] Cons.prems obtain s2 e2 where
    2: "for_each body xs s1 = (Inr (), s2, e2)" "filter is_mutating_call e2 = map c xs"
    by (metis list.set_intros(2))
  from 1 2 show ?case by simp
qed

lemma for_each_dry:
  assumes "\<And>x s. body x s = (Inr (), s, [line x])"
  shows "for_each body xs s = (Inr (), s, map line xs)"
  by (induction xs) (simp_all add: assms)

lemma restore_one_dry:
  "restore_one b True x s =
     (Inr (), s, [case x of (k, i) \<Rightarrow>
        Log INFO (Str ''[Dry Run] Would %s'') [Act (Restoring k (info_versionid i) (version_time i))]])"
  by (cases x) (simp add: Let_def)

lemma delete_one_dry:
  "delete_one b True k s =
     (Inr (), s, [Log INFO (Str ''[Dry Run] Would %s'') [Act (Deleting k)]])"
  by (simp add: delete_one_def)

lemma restore_one_events:
  "restore_one b d x s = (r, s', evs) \<Longrightarrow> \<forall>e\<in>set evs. restore_event e"
  by (cases x) (auto simp: Let_def split: if_splits prod.splits sum.splits raised.splits)

lemma delete_one_events:
  "delete_one b d k s = (r, s', evs) \<Longrightarrow> \<forall>e\<in>set evs. delete_event e"
  by (auto simp: delete_one_def Let_def split: if_splits prod.splits sum.splits raised.splits)

lemma restore_latest_versions_events:
  assumes "restore_latest_versions b lv d s = (r, s', evs)"
  shows "\<forall>e\<in>set evs. restore_event e"
proof -
  obtain evs0 where 0: "for_each (restore_one b d) lv s = (r, s', evs0)" and
    evs: "evs = Log DEBUG (Str ''Starting to restore latest versions for %d objects'')
             [Count (length lv)] # evs0"
    using assms by (auto simp: restore_latest_versions_def split: prod.splits)
  from for_each_events [where P = restore_event, OF restore_one_events 0] evs
  show ?thesis by simp
qed

lemma delete_newer_versions_events:
  assumes "delete_newer_versions b ks d s = (r, s', evs)"
  shows "\<forall>e\<in>set evs. delete_event e"
proof -
  obtain evs0 where 0: "for_each (delete_one b d) ks s = (r, s', evs0)" and
    evs: "evs = Log DEBUG (Str ''Starting to delete %d newer versions'') [Count (length ks)] # evs0"
    using assms by (auto simp: delete_newer_versions_def split: prod.splits)
  from for_each_events [where P = delete_event, OF delete_one_events 0] evs
  show ?thesis by simp
qed

lemma restore_latest_versions_for_each:
  "restore_latest_versions b lv d s = (out, s', evs) \<longleftrightarrow>
     evs \<noteq> [] \<and> for_each (restore_one b d) lv s = (out, s', tl evs) \<and>
     hd evs = Log DEBUG (Str ''Starting to restore latest versions for %d objects'')
                [Count (length lv)]"
  by (cases "for_each (restore_one b d) lv s"; cases evs) (auto simp: restore_latest_versions_def)

lemma delete_newer_versions_for_each:
  "delete_newer_versions b ks d s = (out, s', evs) \<longleftrightarrow>
     evs \<noteq> [] \<and> for_each (delete_one b d) ks s = (out, s', tl evs) \<and>
     hd evs = Log DEBUG (Str ''Starting to delete %d newer versions'') [Count (length ks)]"
  by (cases "for_each (delete_one b d) ks s"; cases evs) (auto simp: delete_newer_versions_def)

lemma restore_one_caught:
  assumes "copy_object b (bucket_name b) k k (info_versionid i) s = (Inl (Exception m), s')"
  shows "restore_one b False (k, i) s =
     (Inr (), s',
      [Log INFO (Act (Restoring k (info_versionid i) (version_time i))) [],
       Log DEBUG (Str ''Copying object: bucket=%s, key=%s, versionId=%s'')
         [Str (bucket_name b), Str k, Str (info_versionid i)],
       Call_copy_object (bucket_name b) k k (info_versionid i),
       Log ERROR (Str ''Error restoring '%s' version '%s': %s'')
         [Str k, Str (info_versionid i), Exc (Exception m)],
       Log DEBUG (Str ''Exception details:'') []])"
  using assms by (simp add: Let_def)

lemma delete_one_caught:
  assumes "delete_object b k s = (Inl (Exception m), s')"
  shows "delete_one b False k s =
     (Inr (), s',
      [Log INFO (Act (Deleting k)) [],
       Log DEBUG (Str ''Deleting object: bucket=%s, key=%s'') [Str (bucket_name b), Str k],
       Call_delete_object k,
       Log ERROR (Str ''Error deleting '%s': %s'') [Str k, Exc (Exception m)],
       Log DEBUG (Str ''Exception details:'') []])"
  using assms by (simp add: delete_one_def Let_def)

lemma restore_one_total:
  assumes "\<And>m. fst (copy_object b (bucket_name b) k k (info_versionid i) s) \<noteq> Inl (BaseException m)"
  shows "\<exists>s' evs. restore_one b False (k, i) s = (Inr (), s', evs) \<and>
           filter is_mutating_call evs = [Call_copy_object (bucket_name b) k k (info_versionid i)]"
proof -
  obtain r s1 where c: "copy_object b (bucket_name b) k k (info_versionid i) s = (r, s1)"
    by (cases "copy_object b (bucket_name b) k k (info_versionid i) s")
  show ?thesis
  proof (cases r)
    case (Inl e)
    with assms c obtain m where "e = Exception m" by (cases e) auto
    with Inl c show ?thesis by (simp add: Let_def)
  next
    case (Inr u)
    with c show ?thesis by (simp add: Let_def)
  qed
qed

lemma delete_one_total:
  assumes "\<And>m. fst (delete_object b k s) \<noteq> Inl (BaseException m)"
  shows "\<exists>s' evs. delete_one b False k s = (Inr (), s', evs) \<and>
           filter is_mutating_call evs = [Call_delete_object k]"
proof -
  obtain r s1 where c: "delete_object b k s = (r, s1)" by (cases "delete_object b k s")
  show ?thesis
  proof (cases r)
    case (Inl e)
    with assms c obtain m where "e = Exception m" by (cases e) auto
    with Inl c show ?thesis by (simp add: delete_one_def Let_def)
  next
    case (Inr u)
    with c show ?thesis by (simp add: delete_one_def Let_def)
  qed
qed

lemma for_each_caught:
  assumes pre: "for_each body pre s = (Inr (), s1, evs1)"
    and x: "body x s1 = (Inr (), s2, evsx)"
    and post: "for_each body post s2 = (out, s3, evs3)"
  shows "for_each body (pre @ x # post) s = (out, s3, evs1 @ evsx @ evs3)"
  using assms by (simp add: for_each_append)

lemma restore_one_interrupted:
  assumes "copy_object b (bucket_name b) k k (info_versionid i) s = (Inl (BaseException m), s')"
  shows "fst (restore_one b False (k, i) s) = Inl (BaseException m)"
  using assms by (simp add: Let_def)

lemma delete_one_interrupted:
  assumes "delete_object b k s = (Inl (BaseException m), s')"
  shows "fst (delete_one b False k s) = Inl (BaseException m)"
  using assms by (simp add: delete_one_def Let_def)

lemma restore_latest_versions_starts:
  "restore_latest_versions b lv d s = (out, s', evs) \<Longrightarrow> list_ex is_restore_start evs"
  by (auto simp: restore_latest_versions_def split: prod.splits)

lemma delete_newer_versions_starts:
  "delete_newer_versions b ks d s = (out, s', evs) \<Longrightarrow> list_ex is_delete_start evs"
  by (auto simp: delete_newer_versions_def split: prod.splits)

section \<open>The phases of recover_objects\<close>

lemma planning_no_apply:
  assumes "\<forall>e\<in>set evs. planning_event e"
  shows "mutating_calls evs = []" "\<not> list_ex is_restore_start evs" "\<not> list_ex is_delete_start evs"
  using assms by (auto simp: planning_event_def mutating_calls_def list_ex_iff filter_empty_conv)

lemma restore_event_not_delete_start: "restore_event e \<Longrightarrow> \<not> is_delete_start e"
  by (cases e) auto

lemma restore_events_no_delete:
  assumes "\<forall>e\<in>set evs. restore_event e"
  shows "Call_delete_object k \<notin> set evs" "\<not> list_ex is_delete_start evs"
    "Raise_list_object_versions x \<notin> set evs"
  using assms restore_event_not_delete_start by (auto simp: list_ex_iff)

lemma delete_events_no_raise:
  assumes "\<forall>e\<in>set evs. delete_event e"
  shows "Raise_list_object_versions x \<notin> set evs"
  using assms by auto

lemma recover_objects_listing_failed:
  assumes "get_object_versions b p rt s = Some (Inl e, s1, evs1)"
  shows "recover_objects so b p rt dry del s =
     Some (Inl e, s1,
           Log INFO (Str ''Starting recovery process for prefix '%s' up to time %sZ'')
             [Str p, Time rt] # evs1)"
  using assms by (simp add: recover_objects_def)

lemma recover_objects_planned:
  assumes "get_object_versions b p rt s = Some (Inr (lv, ks), s1, evs1)"
    and "restore_latest_versions b lv dry s1 = (out2, s2, evs2)"
    and "delete_newer_versions b (so ks) dry s2 = (out3, s3, evs3)"
  shows "recover_objects so b p rt dry del s =
     Some (if del \<and> out2 = Inr () then
             (out3, s3,
              Log INFO (Str ''Starting recovery process for prefix '%s' up to time %sZ'')
                [Str p, Time rt] # evs1 @ evs2 @ evs3 @
              (case out3 of Inl e \<Rightarrow> []
               | Inr u \<Rightarrow> [Log INFO (Str ''Recovery process completed.'') []]))
           else
             (out2, s2,
              Log INFO (Str ''Starting recovery process for prefix '%s' up to time %sZ'')
                [Str p, Time rt] # evs1 @ evs2 @
              (case out2 of Inl e \<Rightarrow> []
               | Inr u \<Rightarrow> [Log INFO (Str ''Recovery process completed.'') []])))"
  using assms by (cases out2; cases out3) (simp_all add: recover_objects_def)

lemma recover_objects_Some:
  assumes "recover_objects so b p rt dry del s = Some y"
  obtains out1 s1 evs1 where "get_object_versions b p rt s = Some (out1, s1, evs1)"
  using assms by (cases "get_object_versions b p rt s") (auto simp: recover_objects_def)

section \<open>The runs of the examples\<close>

lemma test_run:
  "get_object_versions (mock_bucket test_versions) ''prefix/'' 1633620600 () =
     Some (Inr (test_latest_versions, {''object3''}), (), test_events)"
  by (simp add: get_object_versions_def list_loop.simps mock_bucket_def test_versions_def
      test_latest_versions_def test_events_def fromtimestamp_def Let_def)

lemma observed_test_events: "observed_versions test_events = test_versions"
  by (simp add: observed_versions_def test_events_def)

lemma mock_bucket_run:
  assumes "\<forall>v\<in>set vs. representable (last_modified v)" and "scan rt vs = (lv, ks)"
  shows "\<exists>evs. get_object_versions (mock_bucket vs) p rt () = Some (Inr (lv, ks), (), evs) \<and>
           observed_versions evs = vs"
proof -
  from process_versions_representable [OF assms(1), of rt "([], {})"] assms(2)
  obtain evs1 where 1: "process_versions rt ([], {}) vs = (Inr (lv, ks), evs1)" by auto
  have "returned_pages evs1 = []"
    using process_versions_logs [OF 1] returned_pages_logs by blast
  with 1 show ?thesis
    by (simp add: get_object_versions_def list_loop.simps mock_bucket_def Let_def
        observed_versions_def)
qed

lemma test_versions_representable: "\<forall>v\<in>set test_versions. representable (last_modified v)"
  by (simp add: test_versions_def representable_def)

lemma scan_test_versions_1400:
  "scan 1633615200 test_versions =
     ([(''object1'', \<lparr>info_versionid = ''v1'', version_time = 1633615200,
                     last_modified_str = 1633615200\<rparr>)], {''object2'', ''object3''})"
  by (simp add: test_versions_def info_of_def insert_commute)

lemma scan_rev_test_versions:
  "scan 1633620600 (rev test_versions) =
     ([(''object2'', \<lparr>info_versionid = ''v1'', version_time = 1633619700,
                     last_modified_str = 1633619700\<rparr>),
       (''object1'', \<lparr>info_versionid = ''v2'', version_time = 1633620300,
                     last_modified_str = 1633620300\<rparr>)], {''object3''})"
  by (simp add: test_versions_def info_of_def)

lemma scan_tie_versions:
  "scan 1633620600 tie_versions =
     ([(''object1'', \<lparr>info_versionid = ''v1'', version_time = 1633615200,
                     last_modified_str = 1633615200\<rparr>)], {})"
  by (simp add: tie_versions_def info_of_def)

lemma three_pages_listing:
  "listing three_pages_bucket ''prefix/'' 2 [] [] () =
     Some ([first_page, middle_page, last_page], ())"
proof -
  have "listing three_pages_bucket ''prefix/'' (Suc (Suc 0)) [] [] () =
     Some ([first_page, middle_page, last_page], ())"
    by (simp add: three_pages_bucket_def first_page_def middle_page_def last_page_def)
  then show ?thesis by (simp add: numeral_2_eq_2)
qed

lemma three_pages_versions:
  "concat (map versions [first_page, middle_page, last_page]) = test_versions"
  by (simp add: first_page_def middle_page_def last_page_def test_versions_def)

lemma three_pages_scan:
  "fst (process_versions 1633620600 ([], {}) test_versions) =
     Inr (test_latest_versions, {''object3''})"
  by (simp add: test_versions_def test_latest_versions_def fromtimestamp_def Let_def)

lemma failed_listing_run:
  "recover_objects (in_order_of [''object1'', ''object2'', ''object3''])
     (paged_bucket (Inl (Exception ''ServerError''))) ''prefix/'' 1633620600 False True () =
     Some (Inl (Exception ''ServerError''), (), failed_listing_events)"
  by (simp add: recover_objects_def get_object_versions_def list_loop.simps paged_bucket_def
      first_page_def fromtimestamp_def Let_def failed_listing_events_def)

lemma test_recovery_without_delete:
  "\<exists>evs. recover_objects (in_order_of [''object1'', ''object2'', ''object3''])
       (mock_bucket test_versions) ''prefix/'' 1633620600 False False () =
       Some (Inr (), (), evs) \<and>
     mutating_calls evs =
       [Call_copy_object ''bucket'' ''object1'' ''object1'' ''v2'',
        Call_copy_object ''bucket'' ''object2'' ''object2'' ''v1'']"
  unfolding recover_objects_def test_run
  by (simp add: restore_latest_versions_def mock_bucket_def
      test_latest_versions_def test_events_def Let_def mutating_calls_def)

lemma test_recovery_with_delete:
  "\<exists>evs. recover_objects (in_order_of [''object1'', ''object2'', ''object3''])
       (mock_bucket test_versions) ''prefix/'' 1633620600 False True () =
       Some (Inr (), (), evs) \<and>
     mutating_calls evs =
       [Call_copy_object ''bucket'' ''object1'' ''object1'' ''v2'',
        Call_copy_object ''bucket'' ''object2'' ''object2'' ''v1'',
        Call_delete_object ''object3'']"
  unfolding recover_objects_def test_run
  by (simp add: restore_latest_versions_def
      delete_newer_versions_def delete_one_def mock_bucket_def in_order_of_def
      test_latest_versions_def test_events_def Let_def mutating_calls_def)

section \<open>The plan\<close>

text \<open>
  C1. When \<open>get_object_versions\<close> returns, every key met in the version stream is in
  exactly one of \<open>latest_versions\<close> and \<open>keys_without_older_versions\<close>: never in both,
  never in neither, whatever the stream and the cutoff.
\<close>

theorem classified_exactly_once:
  assumes "get_object_versions b p rt s = Some (Inr (lv, ks), s', evs)"
    and "v \<in> set (observed_versions evs)"
  shows "(key v \<in> fst ` set lv) \<noteq> (key v \<in> ks)"
proof -
  let ?vs = "observed_versions evs"
  from get_object_versions_Inr [OF assms(1)] have st: "scan rt ?vs = (lv, ks)" by simp
  have "key v \<in> fst ` set lv \<longleftrightarrow> eligible rt (key v) ?vs \<noteq> []"
    using scan_lookup_None [of rt ?vs "key v"] st by (auto simp: map_of_eq_None_iff)
  moreover have "key v \<in> ks \<longleftrightarrow> eligible rt (key v) ?vs = []"
    using scan_orphan [of "key v" rt ?vs] st assms(2) by auto
  ultimately show ?thesis by simp
qed

theorem classified_exactly_once_witness:
  "get_object_versions (mock_bucket test_versions) ''prefix/'' 1633620600 () =
     Some (Inr (test_latest_versions, {''object3''}), (), test_events) \<and>
   \<lparr>key = ''object3'', versionid = ''v1'', last_modified = 1633622400\<rparr>
     \<in> set (observed_versions test_events) \<and>
   ((key \<lparr>key = ''object3'', versionid = ''v1'', last_modified = 1633622400\<rparr>
       \<in> fst ` set test_latest_versions) \<noteq>
    (key \<lparr>key = ''object3'', versionid = ''v1'', last_modified = 1633622400\<rparr>
       \<in> {''object3''}))"
proof -
  have obs: "\<lparr>key = ''object3'', versionid = ''v1'', last_modified = 1633622400\<rparr>
      \<in> set (observed_versions test_events)"
    by (simp add: observed_test_events test_versions_def)
  from classified_exactly_once [OF test_run obs] test_run obs show ?thesis by blast
qed

text \<open>
  C2. When \<open>get_object_versions\<close> returns and a key has at least one version at or before
  the cutoff, the entry returned for that key has as \<open>version_time\<close> the greatest
  modification time at or before the cutoff among the key's versions in the stream. A
  second run, on any bucket, whose stream is a permutation of the first returns the same
  \<open>version_time\<close> for the key.
\<close>

theorem target_is_latest_eligible:
  assumes "get_object_versions b p rt s = Some (Inr (lv, ks), s', evs)"
    and "v \<in> set (observed_versions evs)" and "last_modified v \<le> rt"
  shows "(\<exists>i. map_of lv (key v) = Some i \<and>
            version_time i =
              Max (set (map last_modified (eligible rt (key v) (observed_versions evs))))) \<and>
         (get_object_versions b2 p2 rt s2 = Some (Inr (lv2, ks2), s2', evs2) \<and>
          mset (observed_versions evs2) = mset (observed_versions evs) \<longrightarrow>
            map_option version_time (map_of lv2 (key v)) =
            map_option version_time (map_of lv (key v)))"
proof -
  let ?vs = "observed_versions evs" and ?k = "key v"
  from get_object_versions_Inr [OF assms(1)] have st: "scan rt ?vs = (lv, ks)" by simp
  from assms(2,3) have ne: "eligible rt ?k ?vs \<noteq> []"
    by (auto simp: eligible_def filter_empty_conv)
  with scan_lookup_None [of rt ?vs ?k] st obtain i where i: "map_of lv ?k = Some i" by auto
  with scan_version_time [of rt ?vs ?k i] st
  have t: "version_time i = Max (set (map last_modified (eligible rt ?k ?vs)))" by simp
  have "map_option version_time (map_of lv2 ?k) = map_option version_time (map_of lv ?k)"
    if run2: "get_object_versions b2 p2 rt s2 = Some (Inr (lv2, ks2), s2', evs2)"
      and perm: "mset (observed_versions evs2) = mset ?vs"
  proof -
    let ?vs2 = "observed_versions evs2"
    from get_object_versions_Inr [OF run2] have st2: "scan rt ?vs2 = (lv2, ks2)" by simp
    from perm have "set ?vs2 = set ?vs" by (rule mset_eq_setD)
    then have same: "set (eligible rt ?k ?vs2) = set (eligible rt ?k ?vs)"
      by (simp add: set_eligible)
    with ne have "eligible rt ?k ?vs2 \<noteq> []" by auto
    with scan_lookup_None [of rt ?vs2 ?k] st2 obtain i2 where i2: "map_of lv2 ?k = Some i2"
      by auto
    with scan_version_time [of rt ?vs2 ?k i2] st2
    have "version_time i2 = Max (set (map last_modified (eligible rt ?k ?vs2)))" by simp
    with same t have "version_time i2 = version_time i" by simp
    with i i2 show ?thesis by simp
  qed
  with i t show ?thesis by blast
qed

theorem target_is_latest_eligible_witness:
  "\<exists>evs2.
     get_object_versions (mock_bucket test_versions) ''prefix/'' 1633620600 () =
       Some (Inr (test_latest_versions, {''object3''}), (), test_events) \<and>
     \<lparr>key = ''object1'', versionid = ''v1'', last_modified = 1633615200\<rparr>
       \<in> set (observed_versions test_events) \<and>
     get_object_versions (mock_bucket (rev test_versions)) ''prefix/'' 1633620600 () =
       Some (Inr ([(''object2'', \<lparr>info_versionid = ''v1'', version_time = 1633619700,
                                   last_modified_str = 1633619700\<rparr>),
                   (''object1'', \<lparr>info_versionid = ''v2'', version_time = 1633620300,
                                   last_modified_str = 1633620300\<rparr>)], {''object3''}),
             (), evs2) \<and>
     mset (observed_versions evs2) = mset (observed_versions test_events) \<and>
     (\<exists>i. map_of test_latest_versions ''object1'' = Some i \<and>
        version_time i =
          Max (set (map last_modified
                 (eligible 1633620600 ''object1'' (observed_versions test_events)))) \<and>
        version_time i = 1633620300) \<and>
     map_option version_time
       (map_of [(''object2'', \<lparr>info_versionid = ''v1'', version_time = 1633619700,
                                last_modified_str = 1633619700\<rparr>),
                (''object1'', \<lparr>info_versionid = ''v2'', version_time = 1633620300,
                                last_modified_str = 1633620300\<rparr>)] ''object1'') =
     Some 1633620300"
proof -
  let ?v = "\<lparr>key = ''object1'', versionid = ''v1'', last_modified = 1633615200\<rparr>"
  have rep: "\<forall>v\<in>set (rev test_versions). representable (last_modified v)"
    using test_versions_representable by simp
  from mock_bucket_run [OF rep scan_rev_test_versions, of "''prefix/''"] obtain evs2 where
    run2: "get_object_versions (mock_bucket (rev test_versions)) ''prefix/'' 1633620600 () =
       Some (Inr ([(''object2'', \<lparr>info_versionid = ''v1'', version_time = 1633619700,
                                   last_modified_str = 1633619700\<rparr>),
                   (''object1'', \<lparr>info_versionid = ''v2'', version_time = 1633620300,
                                   last_modified_str = 1633620300\<rparr>)], {''object3''}),
             (), evs2)" and
    obs2: "observed_versions evs2 = rev test_versions"
    by blast
  have obs: "?v \<in> set (observed_versions test_events)"
    by (simp add: observed_test_events test_versions_def)
  have le: "last_modified ?v \<le> 1633620600" by simp
  have perm: "mset (observed_versions evs2) = mset (observed_versions test_events)"
    by (simp add: obs2 observed_test_events)
  from target_is_latest_eligible [OF test_run obs le,
      where ?b2.0 = "mock_bucket (rev test_versions)" and ?p2.0 = "''prefix/''" and ?s2.0 = "()"
        and ?lv2.0 = "[(''object2'', \<lparr>info_versionid = ''v1'', version_time = 1633619700,
                                   last_modified_str = 1633619700\<rparr>),
                   (''object1'', \<lparr>info_versionid = ''v2'', version_time = 1633620300,
                                   last_modified_str = 1633620300\<rparr>)]"
        and ?ks2.0 = "{''object3''}" and ?s2' = "()" and ?evs2.0 = evs2]
    run2 perm
  have "(\<exists>i. map_of test_latest_versions ''object1'' = Some i \<and>
        version_time i =
          Max (set (map last_modified
                 (eligible 1633620600 ''object1'' (observed_versions test_events)))))"
    and "map_option version_time
       (map_of [(''object2'', \<lparr>info_versionid = ''v1'', version_time = 1633619700,
                                last_modified_str = 1633619700\<rparr>),
                (''object1'', \<lparr>info_versionid = ''v2'', version_time = 1633620300,
                                last_modified_str = 1633620300\<rparr>)] ''object1'') =
      map_option version_time (map_of test_latest_versions ''object1'')"
    by simp_all
  then have "(\<exists>i. map_of test_latest_versions ''object1'' = Some i \<and>
        version_time i =
          Max (set (map last_modified
                 (eligible 1633620600 ''object1'' (observed_versions test_events)))) \<and>
        version_time i = 1633620300)"
    and "map_option version_time
       (map_of [(''object2'', \<lparr>info_versionid = ''v1'', version_time = 1633619700,
                                last_modified_str = 1633619700\<rparr>),
                (''object1'', \<lparr>info_versionid = ''v2'', version_time = 1633620300,
                                last_modified_str = 1633620300\<rparr>)] ''object1'') =
      Some 1633620300"
    by (simp_all add: test_latest_versions_def)
  with test_run obs run2 perm show ?thesis by blast
qed

text \<open>
  C3. When \<open>get_object_versions\<close> returns, a key is in \<open>keys_without_older_versions\<close>
  exactly when it occurs in the stream and none of its versions has a modification time
  at or before the cutoff. The comparison is \<open>\<le>\<close>: a version modified exactly at the
  cutoff keeps its key out of the set.
\<close>

theorem orphan_iff_no_eligible_version:
  assumes "get_object_versions b p rt s = Some (Inr (lv, ks), s', evs)"
  shows "(k \<in> ks \<longleftrightarrow>
            k \<in> key ` set (observed_versions evs) \<and>
            (\<forall>v\<in>set (observed_versions evs). key v = k \<longrightarrow> rt < last_modified v)) \<and>
         (\<forall>v\<in>set (observed_versions evs). last_modified v = rt \<longrightarrow> key v \<notin> ks)"
proof -
  let ?vs = "observed_versions evs"
  from get_object_versions_Inr [OF assms] have st: "scan rt ?vs = (lv, ks)" by simp
  have iff: "k \<in> ks \<longleftrightarrow> k \<in> key ` set ?vs \<and> (\<forall>v\<in>set ?vs. key v = k \<longrightarrow> rt < last_modified v)" for k
    using scan_orphan [of k rt ?vs] st by (simp add: eligible_empty_iff)
  then have "\<forall>v\<in>set ?vs. last_modified v = rt \<longrightarrow> key v \<notin> ks" by auto
  with iff show ?thesis by blast
qed

theorem orphan_iff_no_eligible_version_witness:
  "\<exists>evs.
     get_object_versions (mock_bucket test_versions) ''prefix/'' 1633615200 () =
       Some (Inr ([(''object1'', \<lparr>info_versionid = ''v1'', version_time = 1633615200,
                                   last_modified_str = 1633615200\<rparr>)],
                  {''object2'', ''object3''}), (), evs) \<and>
     observed_versions evs = test_versions \<and>
     ((''object2'' \<in> {''object2'', ''object3''}) =
        (''object2'' \<in> key ` set (observed_versions evs) \<and>
         (\<forall>v\<in>set (observed_versions evs). key v = ''object2'' \<longrightarrow> 1633615200 < last_modified v))) \<and>
     ((''object1'' \<in> {''object2'', ''object3''}) =
        (''object1'' \<in> key ` set (observed_versions evs) \<and>
         (\<forall>v\<in>set (observed_versions evs). key v = ''object1'' \<longrightarrow> 1633615200 < last_modified v))) \<and>
     (\<forall>v\<in>set (observed_versions evs).
        last_modified v = 1633615200 \<longrightarrow> key v \<notin> {''object2'', ''object3''})"
proof -
  from mock_bucket_run [OF test_versions_representable scan_test_versions_1400, of "''prefix/''"]
  obtain evs where
    run: "get_object_versions (mock_bucket test_versions) ''prefix/'' 1633615200 () =
       Some (Inr ([(''object1'', \<lparr>info_versionid = ''v1'', version_time = 1633615200,
                                   last_modified_str = 1633615200\<rparr>)],
                  {''object2'', ''object3''}), (), evs)" and
    obs: "observed_versions evs = test_versions"
    by blast
  from orphan_iff_no_eligible_version [OF run, of "''object2''"]
    orphan_iff_no_eligible_version [OF run, of "''object1''"] run obs
  show ?thesis by blast
qed

text \<open>
  C4, as the code has it. The entry of a key is replaced only by a strictly newer version,
  so among the versions of a key that share its greatest modification time at or before
  the cutoff the one met first in the stream is recorded: a version at or before the
  cutoff that is strictly newer than every such version of its key before it, and at
  least as new as every one after it, is the entry returned for the key.
\<close>

theorem first_of_latest_wins:
  assumes "get_object_versions b p rt s = Some (Inr (lv, ks), s', evs)"
    and "observed_versions evs = xs @ v # ys"
    and "last_modified v \<le> rt"
    and "\<forall>u\<in>set xs. key u = key v \<and> last_modified u \<le> rt \<longrightarrow> last_modified u < last_modified v"
    and "\<forall>u\<in>set ys. key u = key v \<and> last_modified u \<le> rt \<longrightarrow> last_modified u \<le> last_modified v"
  shows "map_of lv (key v) =
           Some \<lparr>info_versionid = versionid v, version_time = last_modified v,
                 last_modified_str = last_modified v\<rparr>"
proof -
  from get_object_versions_Inr [OF assms(1)] assms(2)
  have "scan rt (xs @ v # ys) = (lv, ks)" by simp
  with scan_first_wins [OF assms(3,4,5)] show ?thesis by (simp add: info_of_def)
qed

theorem first_of_latest_wins_witness:
  "\<exists>evs.
     get_object_versions (mock_bucket tie_versions) ''prefix/'' 1633620600 () =
       Some (Inr ([(''object1'', \<lparr>info_versionid = ''v1'', version_time = 1633615200,
                                   last_modified_str = 1633615200\<rparr>)], {}), (), evs) \<and>
     observed_versions evs =
       [] @ \<lparr>key = ''object1'', versionid = ''v1'', last_modified = 1633615200\<rparr> #
       [\<lparr>key = ''object1'', versionid = ''v2'', last_modified = 1633615200\<rparr>] \<and>
     map_of [(''object1'', \<lparr>info_versionid = ''v1'', version_time = 1633615200,
                              last_modified_str = 1633615200\<rparr>)]
       (key \<lparr>key = ''object1'', versionid = ''v1'', last_modified = 1633615200\<rparr>) =
     Some \<lparr>info_versionid = ''v1'', version_time = 1633615200,
           last_modified_str = 1633615200\<rparr>"
proof -
  have rep: "\<forall>v\<in>set tie_versions. representable (last_modified v)"
    by (simp add: tie_versions_def representable_def)
  from mock_bucket_run [OF rep scan_tie_versions, of "''prefix/''"] obtain evs where
    run: "get_object_versions (mock_bucket tie_versions) ''prefix/'' 1633620600 () =
       Some (Inr ([(''object1'', \<lparr>info_versionid = ''v1'', version_time = 1633615200,
                                   last_modified_str = 1633615200\<rparr>)], {}), (), evs)" and
    obs: "observed_versions evs =
       [] @ \<lparr>key = ''object1'', versionid = ''v1'', last_modified = 1633615200\<rparr> #
       [\<lparr>key = ''object1'', versionid = ''v2'', last_modified = 1633615200\<rparr>]"
    by (auto simp: tie_versions_def)
  from first_of_latest_wins [OF run obs] run obs show ?thesis by simp
qed

text \<open>
  C4 as stated says that of two versions of a key with the same modification time, both
  at or before the cutoff, the later one in the stream is recorded. On the stream
  \<open>tie_versions\<close> the entry returned is the first one, \<open>v1\<close>.
\<close>

theorem last_write_wins_counterexample:
  "tie_versions =
     [\<lparr>key = ''object1'', versionid = ''v1'', last_modified = 1633615200\<rparr>,
      \<lparr>key = ''object1'', versionid = ''v2'', last_modified = 1633615200\<rparr>] \<and>
   (1633615200::int) \<le> 1633620600 \<and>
   map_option fst (get_object_versions (mock_bucket tie_versions) ''prefix/'' 1633620600 ()) =
     Some (Inr ([(''object1'', \<lparr>info_versionid = ''v1'', version_time = 1633615200,
                                 last_modified_str = 1633615200\<rparr>)], {})) \<and>
   map_option (observed_versions \<circ> snd \<circ> snd)
     (get_object_versions (mock_bucket tie_versions) ''prefix/'' 1633620600 ()) =
     Some tie_versions"
proof -
  have rep: "\<forall>v\<in>set tie_versions. representable (last_modified v)"
    by (simp add: tie_versions_def representable_def)
  from mock_bucket_run [OF rep scan_tie_versions, of "''prefix/''"]
  show ?thesis by (auto simp: tie_versions_def)
qed

text \<open>
  C10. During the scan (\<open>process_versions\<close> from the empty plan over a stream \<open>xs\<close>, and
  on over \<open>xs @ ys\<close>; the plan that \<open>get_object_versions\<close> returns is the state of this
  scan at the end of its stream), a key that has an entry in \<open>latest_versions\<close> after \<open>xs\<close> is not in
  \<open>keys_without_older_versions\<close> then, and after any further records \<open>ys\<close> it still has an
  entry, with a \<open>version_time\<close> that is not smaller, and is still not in the set. Membership
  in the set is tentative: a key in it leaves it, and gets an entry, with the next version
  of it at or before the cutoff.
\<close>

theorem restorable_is_irrevocable:
  "(process_versions rt ([], {}) xs = (Inr (lv1, ks1), e1) \<and>
    process_versions rt ([], {}) (xs @ ys) = (Inr (lv2, ks2), e2) \<and>
    map_of lv1 k = Some i1 \<longrightarrow>
      k \<notin> ks1 \<and> k \<notin> ks2 \<and>
      (\<exists>i2. map_of lv2 k = Some i2 \<and> version_time i1 \<le> version_time i2)) \<and>
   (process_versions rt ([], {}) xs = (Inr (lv1, ks1), e1) \<and> key v \<in> ks1 \<and>
    last_modified v \<le> rt \<and> representable (last_modified v) \<longrightarrow>
      (\<exists>lv3 ks3 e3. process_versions rt ([], {}) (xs @ [v]) = (Inr (lv3, ks3), e3) \<and>
         key v \<notin> ks3 \<and>
         map_of lv3 (key v) =
           Some \<lparr>info_versionid = versionid v, version_time = last_modified v,
                 last_modified_str = last_modified v\<rparr>)) \<and>
   (get_object_versions b p rt s = Some (Inr st, s', evs) \<longrightarrow>
      fst (process_versions rt ([], {}) (observed_versions evs)) = Inr st)"
proof (intro conjI impI)
  assume "get_object_versions b p rt s = Some (Inr st, s', evs)"
  from get_object_versions_Inr [OF this]
  have rep: "\<forall>v\<in>set (observed_versions evs). representable (last_modified v)"
    and st: "st = scan rt (observed_versions evs)" by simp_all
  from process_versions_representable [OF rep, of rt "([], {})"] st
  show "fst (process_versions rt ([], {}) (observed_versions evs)) = Inr st" by auto
next
  assume a: "process_versions rt ([], {}) xs = (Inr (lv1, ks1), e1) \<and>
    process_versions rt ([], {}) (xs @ ys) = (Inr (lv2, ks2), e2) \<and> map_of lv1 k = Some i1"
  then have st1: "scan rt xs = (lv1, ks1)" and st2: "scan rt (xs @ ys) = (lv2, ks2)"
    and i1: "map_of lv1 k = Some i1"
    using process_versions_Inr by (metis, metis, simp)
  let ?t1 = "set (map last_modified (eligible rt k xs))"
  let ?t2 = "set (map last_modified (eligible rt k (xs @ ys)))"
  from scan_lookup_None [of rt xs k] st1 i1 have ne1: "eligible rt k xs \<noteq> []" by auto
  then have ne2: "eligible rt k (xs @ ys) \<noteq> []" by (simp add: eligible_append)
  from scan_orphan [of k rt xs] st1 ne1 show "k \<notin> ks1" by simp
  from scan_orphan [of k rt "xs @ ys"] st2 ne2 show "k \<notin> ks2" by simp
  from scan_lookup_None [of rt "xs @ ys" k] st2 ne2 obtain i2 where i2: "map_of lv2 k = Some i2"
    by auto
  have "Max ?t1 \<le> Max ?t2"
    using ne1 by (intro Max_mono) (auto simp: eligible_append)
  with scan_version_time [of rt xs k i1] scan_version_time [of rt "xs @ ys" k i2] st1 st2 i1 i2
  show "\<exists>i2. map_of lv2 k = Some i2 \<and> version_time i1 \<le> version_time i2" by simp
next
  assume a: "process_versions rt ([], {}) xs = (Inr (lv1, ks1), e1) \<and> key v \<in> ks1 \<and>
    last_modified v \<le> rt \<and> representable (last_modified v)"
  then have 1: "process_versions rt ([], {}) xs = (Inr (lv1, ks1), e1)"
    and orphan: "key v \<in> ks1" and le: "last_modified v \<le> rt"
    and rep: "representable (last_modified v)" by simp_all
  from process_versions_Inr [OF 1] have st1: "scan rt xs = (lv1, ks1)" by simp
  from scan_orphan [of "key v" rt xs] st1 orphan have "eligible rt (key v) xs = []" by simp
  with scan_lookup_None [of rt xs "key v"] st1 have none: "map_of lv1 (key v) = None" by simp
  from process_version_representable [OF rep, of rt "(lv1, ks1)"] obtain e3 where
    3: "process_version rt (lv1, ks1) v = (Inr (plan_step rt v (lv1, ks1)), e3)" by blast
  from 1 3 have "process_versions rt ([], {}) (xs @ [v]) =
      (Inr (plan_step rt v (lv1, ks1)), e1 @ e3)"
    by (simp add: process_versions_append)
  moreover have "plan_step rt v (lv1, ks1) = (AList.update (key v) (info_of v) lv1, ks1 - {key v})"
    using none le by simp
  ultimately show "\<exists>lv3 ks3 e3. process_versions rt ([], {}) (xs @ [v]) = (Inr (lv3, ks3), e3) \<and>
         key v \<notin> ks3 \<and>
         map_of lv3 (key v) =
           Some \<lparr>info_versionid = versionid v, version_time = last_modified v,
                 last_modified_str = last_modified v\<rparr>"
    by (simp add: update_conv' info_of_def)
qed

theorem restorable_is_irrevocable_witness:
  "fst (process_versions 1633620600 ([], {})
         [\<lparr>key = ''object3'', versionid = ''v1'', last_modified = 1633622400\<rparr>,
          \<lparr>key = ''object2'', versionid = ''v2'', last_modified = 1633622400\<rparr>]) =
     Inr ([], {''object2'', ''object3''}) \<and>
   fst (process_versions 1633620600 ([], {})
         ([\<lparr>key = ''object3'', versionid = ''v1'', last_modified = 1633622400\<rparr>,
           \<lparr>key = ''object2'', versionid = ''v2'', last_modified = 1633622400\<rparr>] @
          [\<lparr>key = ''object2'', versionid = ''v1'', last_modified = 1633619700\<rparr>])) =
     Inr ([(''object2'', \<lparr>info_versionid = ''v1'', version_time = 1633619700,
                           last_modified_str = 1633619700\<rparr>)], {''object3''}) \<and>
   fst (process_versions 1633620600 ([], {})
         ([\<lparr>key = ''object3'', versionid = ''v1'', last_modified = 1633622400\<rparr>,
           \<lparr>key = ''object2'', versionid = ''v2'', last_modified = 1633622400\<rparr>,
           \<lparr>key = ''object2'', versionid = ''v1'', last_modified = 1633619700\<rparr>] @
          [\<lparr>key = ''object2'', versionid = ''v3'', last_modified = 1633620300\<rparr>,
           \<lparr>key = ''object2'', versionid = ''v4'', last_modified = 1633622400\<rparr>])) =
     Inr ([(''object2'', \<lparr>info_versionid = ''v3'', version_time = 1633620300,
                           last_modified_str = 1633620300\<rparr>)], {''object3''}) \<and>
   ''object2'' \<notin> {''object3''} \<and>
   (\<exists>i2. map_of [(''object2'', \<lparr>info_versionid = ''v3'', version_time = 1633620300,
                                  last_modified_str = 1633620300\<rparr>)] ''object2'' = Some i2 \<and>
      version_time \<lparr>info_versionid = ''v1'', version_time = 1633619700,
                    last_modified_str = 1633619700\<rparr> \<le> version_time i2) \<and>
   get_object_versions (mock_bucket test_versions) ''prefix/'' 1633620600 () =
     Some (Inr (test_latest_versions, {''object3''}), (), test_events) \<and>
   fst (process_versions 1633620600 ([], {}) (observed_versions test_events)) =
     Inr (test_latest_versions, {''object3''})"
proof -
  let ?o3 = "\<lparr>key = ''object3'', versionid = ''v1'', last_modified = 1633622400\<rparr>"
  let ?o2b = "\<lparr>key = ''object2'', versionid = ''v2'', last_modified = 1633622400\<rparr>"
  let ?o2a = "\<lparr>key = ''object2'', versionid = ''v1'', last_modified = 1633619700\<rparr>"
  let ?o2c = "\<lparr>key = ''object2'', versionid = ''v3'', last_modified = 1633620300\<rparr>"
  let ?o2d = "\<lparr>key = ''object2'', versionid = ''v4'', last_modified = 1633622400\<rparr>"
  let ?ia = "\<lparr>info_versionid = ''v1'', version_time = 1633619700,
               last_modified_str = 1633619700\<rparr>"
  let ?ic = "\<lparr>info_versionid = ''v3'', version_time = 1633620300,
               last_modified_str = 1633620300\<rparr>"
  let ?run0 = "process_versions 1633620600 ([], {}) [?o3, ?o2b]"
  let ?run1 = "process_versions 1633620600 ([], {}) [?o3, ?o2b, ?o2a]"
  let ?run2 = "process_versions 1633620600 ([], {}) ([?o3, ?o2b, ?o2a] @ [?o2c, ?o2d])"
  have f0: "fst ?run0 = Inr ([], {''object2'', ''object3''})"
    by (simp add: fromtimestamp_def Let_def insert_commute)
  have f1: "fst ?run1 = Inr ([(''object2'', ?ia)], {''object3''})"
    by (simp add: fromtimestamp_def Let_def)
  have f2: "fst ?run2 = Inr ([(''object2'', ?ic)], {''object3''})"
    by (simp add: fromtimestamp_def Let_def)
  have r0: "?run0 = (Inr ([], {''object2'', ''object3''}), snd ?run0)"
    using f0 by (simp add: prod_eq_iff)
  have r1: "?run1 = (Inr ([(''object2'', ?ia)], {''object3''}), snd ?run1)"
    using f1 by (simp add: prod_eq_iff)
  have r2: "?run2 = (Inr ([(''object2'', ?ic)], {''object3''}), snd ?run2)"
    using f2 by (simp add: prod_eq_iff)
  have rep: "representable (last_modified ?o2a)" by (simp add: representable_def)
  have h1: "process_versions 1633620600 ([], {}) [?o3, ?o2b, ?o2a] =
        (Inr ([(''object2'', ?ia)], {''object3''}), snd ?run1) \<and>
      process_versions 1633620600 ([], {}) ([?o3, ?o2b, ?o2a] @ [?o2c, ?o2d]) =
        (Inr ([(''object2'', ?ic)], {''object3''}), snd ?run2) \<and>
      map_of [(''object2'', ?ia)] ''object2'' = Some ?ia"
    by (intro conjI) (rule r1, rule r2, simp)
  have h2: "process_versions 1633620600 ([], {}) [?o3, ?o2b] =
        (Inr ([], {''object2'', ''object3''}), snd ?run0) \<and>
      key ?o2a \<in> {''object2'', ''object3''} \<and>
      last_modified ?o2a \<le> 1633620600 \<and> representable (last_modified ?o2a)"
    by (intro conjI) (rule r0, simp, simp, rule rep)
  have h3: "get_object_versions (mock_bucket test_versions) ''prefix/'' 1633620600 () =
      Some (Inr (test_latest_versions, {''object3''}), (), test_events)"
    by (rule test_run)
  note part1 = restorable_is_irrevocable
    [where rt = 1633620600 and xs = "[?o3, ?o2b, ?o2a]" and ys = "[?o2c, ?o2d]"
       and ?lv1.0 = "[(''object2'', ?ia)]" and ?ks1.0 = "{''object3''}" and ?e1.0 = "snd ?run1"
       and ?lv2.0 = "[(''object2'', ?ic)]" and ?ks2.0 = "{''object3''}" and ?e2.0 = "snd ?run2"
       and k = "''object2''" and ?i1.0 = ?ia, THEN conjunct1, THEN mp, OF h1]
  note part2 = restorable_is_irrevocable
    [where rt = 1633620600 and xs = "[?o3, ?o2b]"
       and ?lv1.0 = "[]" and ?ks1.0 = "{''object2'', ''object3''}" and ?e1.0 = "snd ?run0"
       and v = ?o2a, THEN conjunct2, THEN conjunct1, THEN mp, OF h2]
  note part3 = restorable_is_irrevocable
    [where rt = 1633620600 and b = "mock_bucket test_versions" and p = "''prefix/''"
       and s = "()" and st = "(test_latest_versions, {''object3''})" and s' = "()"
       and evs = test_events, THEN conjunct2, THEN conjunct2, THEN mp, OF h3]
  from part1 have p1: "''object2'' \<notin> {''object3''} \<and>
      (\<exists>i2. map_of [(''object2'', ?ic)] ''object2'' = Some i2 \<and>
         version_time ?ia \<le> version_time i2)"
    by blast
  from f0 f1 f2 p1 part2 part3 test_run show ?thesis by simp
qed

section \<open>The apply phases\<close>

text \<open>
  C5. With \<open>dry_run\<close> true, \<open>restore_latest_versions\<close> issues no \<open>copy_object\<close> call and
  \<open>delete_newer_versions\<close> no \<open>delete_object\<close> call: each returns with the service state
  untouched, and its events are its first debug line followed by exactly one
  \<open>[Dry Run] Would ...\<close> line for each entry of its input, in order.
\<close>

theorem dry_run_only_logs:
  "restore_latest_versions b lv True s =
     (Inr (), s,
      Log DEBUG (Str ''Starting to restore latest versions for %d objects'') [Count (length lv)] #
      map (\<lambda>(k, i). Log INFO (Str ''[Dry Run] Would %s'')
                      [Act (Restoring k (info_versionid i) (version_time i))]) lv) \<and>
   delete_newer_versions b ks True s =
     (Inr (), s,
      Log DEBUG (Str ''Starting to delete %d newer versions'') [Count (length ks)] #
      map (\<lambda>k. Log INFO (Str ''[Dry Run] Would %s'') [Act (Deleting k)]) ks) \<and>
   mutating_calls (snd (snd (restore_latest_versions b lv True s))) = [] \<and>
   mutating_calls (snd (snd (delete_newer_versions b ks True s))) = []"
proof -
  have r: "for_each (restore_one b True) lv s =
      (Inr (), s, map (\<lambda>(k, i). Log INFO (Str ''[Dry Run] Would %s'')
                      [Act (Restoring k (info_versionid i) (version_time i))]) lv)"
    by (rule for_each_dry) (simp add: restore_one_dry)
  have d: "for_each (delete_one b True) ks s =
      (Inr (), s, map (\<lambda>k. Log INFO (Str ''[Dry Run] Would %s'') [Act (Deleting k)]) ks)"
    by (rule for_each_dry) (simp add: delete_one_dry)
  have "filter is_mutating_call (map (\<lambda>(k, i). Log INFO (Str ''[Dry Run] Would %s'')
                      [Act (Restoring k (info_versionid i) (version_time i))]) lv) = []"
    by (induction lv) auto
  moreover have "filter is_mutating_call
      (map (\<lambda>k. Log INFO (Str ''[Dry Run] Would %s'') [Act (Deleting k)]) ks) = []"
    by (induction ks) auto
  ultimately show ?thesis
    using r d by (simp add: restore_latest_versions_def delete_newer_versions_def mutating_calls_def)
qed

text \<open>
  C6. With \<open>dry_run\<close> false, an error (an instance of \<open>Exception\<close>) raised by the storage
  call for one key is caught and logged, and the loop goes on.
  \<^item> On a bucket whose \<open>copy_object\<close> raises nothing outside \<open>Exception\<close>,
    \<open>restore_latest_versions\<close> returns normally and has issued exactly one \<open>copy_object\<close>
    call for each entry, in order; likewise \<open>delete_newer_versions\<close> and \<open>delete_object\<close>.
  \<^item> If the call for the key after the entries \<open>pre\<close> raises \<open>Exception m\<close>, the run over
    \<open>pre @ (k, i) # post\<close> is the run over \<open>pre\<close>, the call, the error line with the key,
    the version and the exception, and then the run over \<open>post\<close> from the state the
    failed call left: with the same outcome and events as on its own. Likewise for
    \<open>delete_newer_versions\<close>.
\<close>

theorem failures_are_isolated:
  "((\<forall>sb sk tk v s0 m. fst (copy_object b sb sk tk v s0) \<noteq> Inl (BaseException m)) \<longrightarrow>
      (\<exists>s' evs. restore_latest_versions b lv False s = (Inr (), s', evs) \<and>
         mutating_calls evs =
           map (\<lambda>(k, i). Call_copy_object (bucket_name b) k k (info_versionid i)) lv)) \<and>
   (restore_latest_versions b pre False s = (Inr (), s1, evs1) \<and>
    copy_object b (bucket_name b) k k (info_versionid i) s1 = (Inl (Exception m), s2) \<and>
    restore_latest_versions b post False s2 = (out, s3, evs3) \<longrightarrow>
      restore_latest_versions b (pre @ (k, i) # post) False s =
        (out, s3,
         Log DEBUG (Str ''Starting to restore latest versions for %d objects'')
           [Count (length (pre @ (k, i) # post))] #
         tl evs1 @
         [Log INFO (Act (Restoring k (info_versionid i) (version_time i))) [],
          Log DEBUG (Str ''Copying object: bucket=%s, key=%s, versionId=%s'')
            [Str (bucket_name b), Str k, Str (info_versionid i)],
          Call_copy_object (bucket_name b) k k (info_versionid i),
          Log ERROR (Str ''Error restoring '%s' version '%s': %s'')
            [Str k, Str (info_versionid i), Exc (Exception m)],
          Log DEBUG (Str ''Exception details:'') []] @
         tl evs3)) \<and>
   ((\<forall>k0 s0 m. fst (delete_object b k0 s0) \<noteq> Inl (BaseException m)) \<longrightarrow>
      (\<exists>s' evs. delete_newer_versions b ks False t = (Inr (), s', evs) \<and>
         mutating_calls evs = map Call_delete_object ks)) \<and>
   (delete_newer_versions b kpre False t = (Inr (), t1, dvs1) \<and>
    delete_object b kd t1 = (Inl (Exception md), t2) \<and>
    delete_newer_versions b kpost False t2 = (dout, t3, dvs3) \<longrightarrow>
      delete_newer_versions b (kpre @ kd # kpost) False t =
        (dout, t3,
         Log DEBUG (Str ''Starting to delete %d newer versions'')
           [Count (length (kpre @ kd # kpost))] #
         tl dvs1 @
         [Log INFO (Act (Deleting kd)) [],
          Log DEBUG (Str ''Deleting object: bucket=%s, key=%s'') [Str (bucket_name b), Str kd],
          Call_delete_object kd,
          Log ERROR (Str ''Error deleting '%s': %s'') [Str kd, Exc (Exception md)],
          Log DEBUG (Str ''Exception details:'') []] @
         tl dvs3))"
proof (intro conjI impI)
  assume ok: "\<forall>sb sk tk v s0 m. fst (copy_object b sb sk tk v s0) \<noteq> Inl (BaseException m)"
  have "\<exists>s' evs. for_each (restore_one b False) lv s = (Inr (), s', evs) \<and>
      filter is_mutating_call evs =
        map (\<lambda>(k, i). Call_copy_object (bucket_name b) k k (info_versionid i)) lv"
  proof (rule for_each_total)
    fix x :: "string \<times> version_info" and s0
    obtain k0 i0 where x: "x = (k0, i0)" by (cases x)
    from restore_one_total [of b k0 i0 s0] ok x
    show "\<exists>s' evs. restore_one b False x s0 = (Inr (), s', evs) \<and>
        filter is_mutating_call evs =
          [case x of (k, i) \<Rightarrow> Call_copy_object (bucket_name b) k k (info_versionid i)]"
      by simp
  qed
  then show "\<exists>s' evs. restore_latest_versions b lv False s = (Inr (), s', evs) \<and>
      mutating_calls evs =
        map (\<lambda>(k, i). Call_copy_object (bucket_name b) k k (info_versionid i)) lv"
    by (auto simp: restore_latest_versions_def mutating_calls_def)
next
  assume a: "restore_latest_versions b pre False s = (Inr (), s1, evs1) \<and>
    copy_object b (bucket_name b) k k (info_versionid i) s1 = (Inl (Exception m), s2) \<and>
    restore_latest_versions b post False s2 = (out, s3, evs3)"
  then have pre: "for_each (restore_one b False) pre s = (Inr (), s1, tl evs1)"
    and post: "for_each (restore_one b False) post s2 = (out, s3, tl evs3)"
    by (simp_all add: restore_latest_versions_for_each)
  from a have x: "copy_object b (bucket_name b) k k (info_versionid i) s1 = (Inl (Exception m), s2)"
    by simp
  from for_each_caught [OF pre restore_one_caught [OF x] post]
  show "restore_latest_versions b (pre @ (k, i) # post) False s =
        (out, s3,
         Log DEBUG (Str ''Starting to restore latest versions for %d objects'')
           [Count (length (pre @ (k, i) # post))] #
         tl evs1 @
         [Log INFO (Act (Restoring k (info_versionid i) (version_time i))) [],
          Log DEBUG (Str ''Copying object: bucket=%s, key=%s, versionId=%s'')
            [Str (bucket_name b), Str k, Str (info_versionid i)],
          Call_copy_object (bucket_name b) k k (info_versionid i),
          Log ERROR (Str ''Error restoring '%s' version '%s': %s'')
            [Str k, Str (info_versionid i), Exc (Exception m)],
          Log DEBUG (Str ''Exception details:'') []] @
         tl evs3)"
    by (simp add: restore_latest_versions_def)
next
  assume ok: "\<forall>k0 s0 m. fst (delete_object b k0 s0) \<noteq> Inl (BaseException m)"
  have "\<exists>s' evs. for_each (delete_one b False) ks t = (Inr (), s', evs) \<and>
      filter is_mutating_call evs = map Call_delete_object ks"
  proof (rule for_each_total)
    fix x s0
    from ok have "\<And>m. fst (delete_object b x s0) \<noteq> Inl (BaseException m)" by simp
    from delete_one_total [OF this]
    show "\<exists>s' evs. delete_one b False x s0 = (Inr (), s', evs) \<and>
        filter is_mutating_call evs = [Call_delete_object x]" .
  qed
  then show "\<exists>s' evs. delete_newer_versions b ks False t = (Inr (), s', evs) \<and>
      mutating_calls evs = map Call_delete_object ks"
    by (auto simp: delete_newer_versions_def mutating_calls_def)
next
  assume a: "delete_newer_versions b kpre False t = (Inr (), t1, dvs1) \<and>
    delete_object b kd t1 = (Inl (Exception md), t2) \<and>
    delete_newer_versions b kpost False t2 = (dout, t3, dvs3)"
  then have pre: "for_each (delete_one b False) kpre t = (Inr (), t1, tl dvs1)"
    and post: "for_each (delete_one b False) kpost t2 = (dout, t3, tl dvs3)"
    by (simp_all add: delete_newer_versions_for_each)
  from a have x: "delete_object b kd t1 = (Inl (Exception md), t2)" by simp
  from for_each_caught [OF pre delete_one_caught [OF x] post]
  show "delete_newer_versions b (kpre @ kd # kpost) False t =
        (dout, t3,
         Log DEBUG (Str ''Starting to delete %d newer versions'')
           [Count (length (kpre @ kd # kpost))] #
         tl dvs1 @
         [Log INFO (Act (Deleting kd)) [],
          Log DEBUG (Str ''Deleting object: bucket=%s, key=%s'') [Str (bucket_name b), Str kd],
          Call_delete_object kd,
          Log ERROR (Str ''Error deleting '%s': %s'') [Str kd, Exc (Exception md)],
          Log DEBUG (Str ''Exception details:'') []] @
         tl dvs3)"
    by (simp add: delete_newer_versions_def)
qed

theorem failures_are_isolated_witness:
  "restore_latest_versions flaky_bucket [] False () =
     (Inr (), (),
      [Log DEBUG (Str ''Starting to restore latest versions for %d objects'') [Count 0]]) \<and>
   copy_object flaky_bucket (bucket_name flaky_bucket) ''object1'' ''object1'' ''v2'' () =
     (Inl (Exception ''NoSuchVersion''), ()) \<and>
   restore_latest_versions flaky_bucket
     [(''object2'', \<lparr>info_versionid = ''v1'', version_time = 1633619700,
                     last_modified_str = 1633619700\<rparr>)] False () =
     (Inr (), (),
      [Log DEBUG (Str ''Starting to restore latest versions for %d objects'') [Count 1],
       Log INFO (Act (Restoring ''object2'' ''v1'' 1633619700)) [],
       Log DEBUG (Str ''Copying object: bucket=%s, key=%s, versionId=%s'')
         [Str ''bucket'', Str ''object2'', Str ''v1''],
       Call_copy_object ''bucket'' ''object2'' ''object2'' ''v1'',
       Log DEBUG (Str ''Successfully restored object: %s'') [Str ''object2'']]) \<and>
   restore_latest_versions flaky_bucket test_latest_versions False () =
     (Inr (), (),
      [Log DEBUG (Str ''Starting to restore latest versions for %d objects'') [Count 2],
       Log INFO (Act (Restoring ''object1'' ''v2'' 1633620300)) [],
       Log DEBUG (Str ''Copying object: bucket=%s, key=%s, versionId=%s'')
         [Str ''bucket'', Str ''object1'', Str ''v2''],
       Call_copy_object ''bucket'' ''object1'' ''object1'' ''v2'',
       Log ERROR (Str ''Error restoring '%s' version '%s': %s'')
         [Str ''object1'', Str ''v2'', Exc (Exception ''NoSuchVersion'')],
       Log DEBUG (Str ''Exception details:'') [],
       Log INFO (Act (Restoring ''object2'' ''v1'' 1633619700)) [],
       Log DEBUG (Str ''Copying object: bucket=%s, key=%s, versionId=%s'')
         [Str ''bucket'', Str ''object2'', Str ''v1''],
       Call_copy_object ''bucket'' ''object2'' ''object2'' ''v1'',
       Log DEBUG (Str ''Successfully restored object: %s'') [Str ''object2'']]) \<and>
   mutating_calls (snd (snd (restore_latest_versions flaky_bucket test_latest_versions False ()))) =
     [Call_copy_object ''bucket'' ''object1'' ''object1'' ''v2'',
      Call_copy_object ''bucket'' ''object2'' ''object2'' ''v1''] \<and>
   delete_newer_versions flaky_bucket [] False () =
     (Inr (), (), [Log DEBUG (Str ''Starting to delete %d newer versions'') [Count 0]]) \<and>
   delete_object flaky_bucket ''object2'' () = (Inl (Exception ''AccessDenied''), ()) \<and>
   delete_newer_versions flaky_bucket [''object3''] False () =
     (Inr (), (),
      [Log DEBUG (Str ''Starting to delete %d newer versions'') [Count 1],
       Log INFO (Act (Deleting ''object3'')) [],
       Log DEBUG (Str ''Deleting object: bucket=%s, key=%s'') [Str ''bucket'', Str ''object3''],
       Call_delete_object ''object3'',
       Log DEBUG (Str ''Successfully deleted object: %s'') [Str ''object3'']]) \<and>
   delete_newer_versions flaky_bucket [''object2'', ''object3''] False () =
     (Inr (), (),
      [Log DEBUG (Str ''Starting to delete %d newer versions'') [Count 2],
       Log INFO (Act (Deleting ''object2'')) [],
       Log DEBUG (Str ''Deleting object: bucket=%s, key=%s'') [Str ''bucket'', Str ''object2''],
       Call_delete_object ''object2'',
       Log ERROR (Str ''Error deleting '%s': %s'')
         [Str ''object2'', Exc (Exception ''AccessDenied'')],
       Log DEBUG (Str ''Exception details:'') [],
       Log INFO (Act (Deleting ''object3'')) [],
       Log DEBUG (Str ''Deleting object: bucket=%s, key=%s'') [Str ''bucket'', Str ''object3''],
       Call_delete_object ''object3'',
       Log DEBUG (Str ''Successfully deleted object: %s'') [Str ''object3'']]) \<and>
   mutating_calls (snd (snd (delete_newer_versions flaky_bucket [''object2'', ''object3''] False ()))) =
     [Call_delete_object ''object2'', Call_delete_object ''object3'']"
proof -
  let ?i1 = "\<lparr>info_versionid = ''v2'', version_time = 1633620300,
               last_modified_str = 1633620300\<rparr>"
  let ?i2 = "\<lparr>info_versionid = ''v1'', version_time = 1633619700,
               last_modified_str = 1633619700\<rparr>"
  let ?rpre = "[Log DEBUG (Str ''Starting to restore latest versions for %d objects'') [Count 0]]"
  let ?rpost = "[Log DEBUG (Str ''Starting to restore latest versions for %d objects'') [Count 1],
       Log INFO (Act (Restoring ''object2'' ''v1'' 1633619700)) [],
       Log DEBUG (Str ''Copying object: bucket=%s, key=%s, versionId=%s'')
         [Str ''bucket'', Str ''object2'', Str ''v1''],
       Call_copy_object ''bucket'' ''object2'' ''object2'' ''v1'',
       Log DEBUG (Str ''Successfully restored object: %s'') [Str ''object2'']]"
  let ?dpre = "[Log DEBUG (Str ''Starting to delete %d newer versions'') [Count 0]]"
  let ?dpost = "[Log DEBUG (Str ''Starting to delete %d newer versions'') [Count 1],
       Log INFO (Act (Deleting ''object3'')) [],
       Log DEBUG (Str ''Deleting object: bucket=%s, key=%s'') [Str ''bucket'', Str ''object3''],
       Call_delete_object ''object3'',
       Log DEBUG (Str ''Successfully deleted object: %s'') [Str ''object3'']]"
  have r1: "restore_latest_versions flaky_bucket [] False () = (Inr (), (), ?rpre)"
    by (simp add: restore_latest_versions_def)
  have r2: "copy_object flaky_bucket (bucket_name flaky_bucket) ''object1'' ''object1''
              (info_versionid ?i1) () = (Inl (Exception ''NoSuchVersion''), ())"
    by (simp add: flaky_bucket_def)
  have r3: "restore_latest_versions flaky_bucket [(''object2'', ?i2)] False () = (Inr (), (), ?rpost)"
    by (simp add: restore_latest_versions_def flaky_bucket_def Let_def)
  have d1: "delete_newer_versions flaky_bucket [] False () = (Inr (), (), ?dpre)"
    by (simp add: delete_newer_versions_def)
  have d2: "delete_object flaky_bucket ''object2'' () = (Inl (Exception ''AccessDenied''), ())"
    by (simp add: flaky_bucket_def)
  have d3: "delete_newer_versions flaky_bucket [''object3''] False () = (Inr (), (), ?dpost)"
    by (simp add: delete_newer_versions_def delete_one_def flaky_bucket_def Let_def)
  have ok1: "\<forall>sb sk tk v s0 m. fst (copy_object flaky_bucket sb sk tk v s0) \<noteq> Inl (BaseException m)"
    by (simp add: flaky_bucket_def)
  have ok2: "\<forall>k0 s0 m. fst (delete_object flaky_bucket k0 s0) \<noteq> Inl (BaseException m)"
    by (simp add: flaky_bucket_def)
  note inst = failures_are_isolated [where b = flaky_bucket and lv = test_latest_versions
      and s = "()" and pre = "[]" and ?s1.0 = "()" and ?evs1.0 = ?rpre and k = "''object1''"
      and i = ?i1 and m = "''NoSuchVersion''" and ?s2.0 = "()"
      and post = "[(''object2'', ?i2)]" and out = "Inr ()" and ?s3.0 = "()" and ?evs3.0 = ?rpost
      and ks = "[''object2'', ''object3'']" and t = "()" and kpre = "[]" and ?t1.0 = "()"
      and ?dvs1.0 = ?dpre and kd = "''object2''" and md = "''AccessDenied''" and ?t2.0 = "()"
      and kpost = "[''object3'']" and dout = "Inr ()" and ?t3.0 = "()" and ?dvs3.0 = ?dpost]
  from inst ok1 obtain s' evs where
    a: "restore_latest_versions flaky_bucket test_latest_versions False () = (Inr (), s', evs)"
       "mutating_calls evs =
          map (\<lambda>(k, i). Call_copy_object (bucket_name flaky_bucket) k k (info_versionid i))
            test_latest_versions"
    by blast
  from inst r1 r2 r3 have
    b: "restore_latest_versions flaky_bucket ([] @ (''object1'', ?i1) # [(''object2'', ?i2)]) False () =
        (Inr (), (),
         Log DEBUG (Str ''Starting to restore latest versions for %d objects'')
           [Count (length ([] @ (''object1'', ?i1) # [(''object2'', ?i2)]))] #
         tl ?rpre @
         [Log INFO (Act (Restoring ''object1'' (info_versionid ?i1) (version_time ?i1))) [],
          Log DEBUG (Str ''Copying object: bucket=%s, key=%s, versionId=%s'')
            [Str (bucket_name flaky_bucket), Str ''object1'', Str (info_versionid ?i1)],
          Call_copy_object (bucket_name flaky_bucket) ''object1'' ''object1'' (info_versionid ?i1),
          Log ERROR (Str ''Error restoring '%s' version '%s': %s'')
            [Str ''object1'', Str (info_versionid ?i1), Exc (Exception ''NoSuchVersion'')],
          Log DEBUG (Str ''Exception details:'') []] @
         tl ?rpost)"
    by blast
  from inst ok2 obtain t' dvs where
    c: "delete_newer_versions flaky_bucket [''object2'', ''object3''] False () = (Inr (), t', dvs)"
       "mutating_calls dvs = map Call_delete_object [''object2'', ''object3'']"
    by blast
  from inst d1 d2 d3 have
    d: "delete_newer_versions flaky_bucket ([] @ ''object2'' # [''object3'']) False () =
        (Inr (), (),
         Log DEBUG (Str ''Starting to delete %d newer versions'')
           [Count (length ([] @ ''object2'' # [''object3'']))] #
         tl ?dpre @
         [Log INFO (Act (Deleting ''object2'')) [],
          Log DEBUG (Str ''Deleting object: bucket=%s, key=%s'')
            [Str (bucket_name flaky_bucket), Str ''object2''],
          Call_delete_object ''object2'',
          Log ERROR (Str ''Error deleting '%s': %s'')
            [Str ''object2'', Exc (Exception ''AccessDenied'')],
          Log DEBUG (Str ''Exception details:'') []] @
         tl ?dpost)"
    by blast
  have bn: "bucket_name flaky_bucket = ''bucket''" by (simp add: flaky_bucket_def)
  from a b c d r1 r2 r3 d1 d2 d3 show ?thesis
    by (simp add: test_latest_versions_def bn)
qed

section \<open>The whole run\<close>

text \<open>
  C7. A \<open>list_object_versions\<close> request that raises ends the run with that exception:
  \<open>get_object_versions\<close> and \<open>recover_objects\<close> both have it as their outcome, it is the
  last event of the run (no retry, no plan returned), and the run holds no \<open>copy_object\<close>
  or \<open>delete_object\<close> call and entered neither \<open>restore_latest_versions\<close> nor
  \<open>delete_newer_versions\<close>. The loop itself returns at once from the request that raises,
  at whatever iteration.
\<close>

theorem listing_failure_propagates:
  "(recover_objects so b p rt dry del s = Some (out, s', evs) \<and>
    Raise_list_object_versions e \<in> set evs \<longrightarrow>
      out = Inl e \<and>
      get_object_versions b p rt s = Some (Inl e, s', tl evs) \<and>
      last evs = Raise_list_object_versions e \<and>
      mutating_calls evs = [] \<and>
      \<not> list_ex is_restore_start evs \<and> \<not> list_ex is_delete_start evs) \<and>
   (list_object_versions b p km vm 999 s0 = (Inl e0, s1) \<longrightarrow>
      list_loop b p rt km vm st s0 tr =
        Some (Inl e0, s1,
              tr @
              [Log DEBUG (Str ''Listing object versions with key_marker: %s, versionid_marker: %s'')
                 [Str km, Str vm],
               Call_list_object_versions p km vm 999,
               Raise_list_object_versions e0]))"
proof (intro conjI impI)
  assume "list_object_versions b p km vm 999 s0 = (Inl e0, s1)"
  then show "list_loop b p rt km vm st s0 tr =
        Some (Inl e0, s1,
              tr @
              [Log DEBUG (Str ''Listing object versions with key_marker: %s, versionid_marker: %s'')
                 [Str km, Str vm],
               Call_list_object_versions p km vm 999,
               Raise_list_object_versions e0])"
    by (subst list_loop.simps) simp
next
  assume a: "recover_objects so b p rt dry del s = Some (out, s', evs) \<and>
    Raise_list_object_versions e \<in> set evs"
  then have run: "recover_objects so b p rt dry del s = Some (out, s', evs)"
    and raised: "Raise_list_object_versions e \<in> set evs" by simp_all
  let ?starting = "Log INFO (Str ''Starting recovery process for prefix '%s' up to time %sZ'')
                     [Str p, Time rt]"
  from run obtain out1 s1 evs1 where g: "get_object_versions b p rt s = Some (out1, s1, evs1)"
    by (rule recover_objects_Some)
  note lt = get_object_versions_trace [OF g]
  have facts: "out = Inl e \<and> s' = s1 \<and> evs = ?starting # evs1 \<and> out1 = Inl e \<and>
               last evs1 = Raise_list_object_versions e"
  proof (cases out1)
    case (Inl e1)
    from recover_objects_listing_failed [OF g [unfolded Inl], of so dry del] run
    have eq: "out = Inl e1" "s' = s1" "evs = ?starting # evs1" by simp_all
    with raised have "Raise_list_object_versions e \<in> set evs1" by simp
    with lt Inl have "e1 = e" "last evs1 = Raise_list_object_versions e"
      by (auto simp: listing_trace_def)
    with eq Inl show ?thesis by simp
  next
    case (Inr st)
    obtain lv ks where st: "st = (lv, ks)" by (cases st)
    obtain out2 s2 evs2 where r: "restore_latest_versions b lv dry s1 = (out2, s2, evs2)"
      by (cases "restore_latest_versions b lv dry s1")
    obtain out3 s3 evs3 where d: "delete_newer_versions b (so ks) dry s2 = (out3, s3, evs3)"
      by (cases "delete_newer_versions b (so ks) dry s2")
    have n1: "Raise_list_object_versions e \<notin> set evs1"
      using lt Inr by (auto simp: listing_trace_def)
    have n2: "Raise_list_object_versions e \<notin> set evs2"
      using restore_events_no_delete(3) [OF restore_latest_versions_events [OF r]] .
    have n3: "Raise_list_object_versions e \<notin> set evs3"
      using delete_events_no_raise [OF delete_newer_versions_events [OF d]] .
    from recover_objects_planned [where so = so, OF g [unfolded Inr st] r d, of del] run
    have "Raise_list_object_versions e \<notin> set evs"
      using n1 n2 n3 by (auto split: if_splits sum.splits)
    with raised show ?thesis by simp
  qed
  from lt have ne: "evs1 \<noteq> []" and plan: "\<forall>e\<in>set evs1. planning_event e"
    by (simp_all add: listing_trace_def)
  have starting: "planning_event ?starting" by (simp add: planning_event_def)
  from facts plan starting have all: "\<forall>e\<in>set evs. planning_event e" by simp
  from facts show "out = Inl e" by simp
  from facts g show "get_object_versions b p rt s = Some (Inl e, s', tl evs)" by simp
  from facts ne show "last evs = Raise_list_object_versions e" by simp
  from planning_no_apply [OF all] show "mutating_calls evs = []"
    "\<not> list_ex is_restore_start evs" "\<not> list_ex is_delete_start evs" by simp_all
qed

theorem listing_failure_propagates_witness:
  "recover_objects (in_order_of [''object1'', ''object2'', ''object3''])
     (paged_bucket (Inl (Exception ''ServerError''))) ''prefix/'' 1633620600 False True () =
     Some (Inl (Exception ''ServerError''), (), failed_listing_events) \<and>
   Raise_list_object_versions (Exception ''ServerError'') \<in> set failed_listing_events \<and>
   get_object_versions (paged_bucket (Inl (Exception ''ServerError''))) ''prefix/'' 1633620600 () =
     Some (Inl (Exception ''ServerError''), (), tl failed_listing_events) \<and>
   last failed_listing_events = Raise_list_object_versions (Exception ''ServerError'') \<and>
   mutating_calls failed_listing_events = [] \<and>
   \<not> list_ex is_restore_start failed_listing_events \<and>
   \<not> list_ex is_delete_start failed_listing_events \<and>
   list_object_versions (paged_bucket (Inl (Exception ''ServerError'')))
     ''prefix/'' ''object1'' ''v3'' 999 () = (Inl (Exception ''ServerError''), ()) \<and>
   list_loop (paged_bucket (Inl (Exception ''ServerError''))) ''prefix/'' 1633620600
     ''object1'' ''v3'' ([], {}) () [] =
     Some (Inl (Exception ''ServerError''), (),
           [] @
           [Log DEBUG (Str ''Listing object versions with key_marker: %s, versionid_marker: %s'')
              [Str ''object1'', Str ''v3''],
            Call_list_object_versions ''prefix/'' ''object1'' ''v3'' 999,
            Raise_list_object_versions (Exception ''ServerError'')])"
proof -
  have raised: "Raise_list_object_versions (Exception ''ServerError'') \<in> set failed_listing_events"
    by (simp add: failed_listing_events_def)
  have fails: "list_object_versions (paged_bucket (Inl (Exception ''ServerError'')))
     ''prefix/'' ''object1'' ''v3'' 999 () = (Inl (Exception ''ServerError''), ())"
    by (simp add: paged_bucket_def)
  from listing_failure_propagates
    [where so = "in_order_of [''object1'', ''object2'', ''object3'']"
       and b = "paged_bucket (Inl (Exception ''ServerError''))" and p = "''prefix/''"
       and rt = 1633620600 and dry = False and del = True and s = "()"
       and out = "Inl (Exception ''ServerError'')" and s' = "()" and evs = failed_listing_events
       and e = "Exception ''ServerError''" and km = "''object1''" and vm = "''v3''"
       and ?s0.0 = "()" and ?e0.0 = "Exception ''ServerError''" and ?s1.0 = "()"
       and st = "([], {})" and tr = "[]"]
    failed_listing_run raised fails
  show ?thesis by blast
qed

text \<open>
  C8. Once \<open>get_object_versions\<close> has returned a plan, \<open>recover_objects\<close> always enters
  \<open>restore_latest_versions\<close>, and it enters \<open>delete_newer_versions\<close> exactly when
  \<open>delete_newer\<close> is true (and \<open>restore_latest_versions\<close> returned rather than being
  interrupted). With \<open>delete_newer\<close> false the run holds no \<open>delete_object\<close> call, whatever
  \<open>keys_without_older_versions\<close> holds; a call that leaves the flag out is such a run.
\<close>

theorem delete_only_on_request:
  assumes "get_object_versions b p rt s = Some (Inr (lv, ks), s1, evs1)"
  shows "(\<exists>out s' evs.
            recover_objects so b p rt dry del s = Some (out, s', evs) \<and>
            list_ex is_restore_start evs \<and>
            (list_ex is_delete_start evs \<longleftrightarrow>
               del \<and> fst (restore_latest_versions b lv dry s1) = Inr ()) \<and>
            (\<not> del \<longrightarrow> (\<forall>k. Call_delete_object k \<notin> set evs))) \<and>
         recover_objects_default so b p rt s = recover_objects so b p rt False False s"
proof -
  let ?starting = "Log INFO (Str ''Starting recovery process for prefix '%s' up to time %sZ'')
                     [Str p, Time rt]"
  obtain out2 s2 evs2 where r: "restore_latest_versions b lv dry s1 = (out2, s2, evs2)"
    by (cases "restore_latest_versions b lv dry s1")
  obtain out3 s3 evs3 where d: "delete_newer_versions b (so ks) dry s2 = (out3, s3, evs3)"
    by (cases "delete_newer_versions b (so ks) dry s2")
  note eq = recover_objects_planned [where so = so, OF assms r d, of del]
  from get_object_versions_trace [OF assms]
  have plan: "\<forall>e\<in>set evs1. planning_event e" by (simp add: listing_trace_def)
  note p1 = planning_no_apply [OF plan]
  note r2 = restore_events_no_delete [OF restore_latest_versions_events [OF r]]
  have rs: "list_ex is_restore_start evs2" by (rule restore_latest_versions_starts [OF r])
  have ds: "list_ex is_delete_start evs3" by (rule delete_newer_versions_starts [OF d])
  have nd1: "Call_delete_object k \<notin> set evs1" for k
    using plan by (auto simp: planning_event_def)
  show ?thesis
  proof (cases "del \<and> out2 = Inr ()")
    case True
    with eq r rs ds show ?thesis
      by (auto simp: recover_objects_default_def list_ex_iff)
  next
    case False
    have "\<not> list_ex is_delete_start
              (?starting # evs1 @ evs2 @
                 (case out2 of Inl e \<Rightarrow> []
                  | Inr u \<Rightarrow> [Log INFO (Str ''Recovery process completed.'') []]))"
      using p1(3) r2(2) by (auto simp: list_ex_iff split: sum.splits)
    moreover have "Call_delete_object k \<notin> set
              (?starting # evs1 @ evs2 @
                 (case out2 of Inl e \<Rightarrow> []
                  | Inr u \<Rightarrow> [Log INFO (Str ''Recovery process completed.'') []]))" for k
      using nd1 r2(1) by (auto split: sum.splits)
    moreover have "list_ex is_restore_start
              (?starting # evs1 @ evs2 @
                 (case out2 of Inl e \<Rightarrow> []
                  | Inr u \<Rightarrow> [Log INFO (Str ''Recovery process completed.'') []]))"
      using rs by (auto simp: list_ex_iff)
    ultimately show ?thesis
      using False eq r by (auto simp: recover_objects_default_def)
  qed
qed

theorem delete_only_on_request_witness:
  "get_object_versions (mock_bucket test_versions) ''prefix/'' 1633620600 () =
     Some (Inr (test_latest_versions, {''object3''}), (), test_events) \<and>
   (\<exists>evs. recover_objects (in_order_of [''object1'', ''object2'', ''object3''])
       (mock_bucket test_versions) ''prefix/'' 1633620600 False False () =
       Some (Inr (), (), evs) \<and>
     list_ex is_restore_start evs \<and> \<not> list_ex is_delete_start evs \<and>
     (\<forall>k. Call_delete_object k \<notin> set evs) \<and>
     mutating_calls evs =
       [Call_copy_object ''bucket'' ''object1'' ''object1'' ''v2'',
        Call_copy_object ''bucket'' ''object2'' ''object2'' ''v1'']) \<and>
   (\<exists>evs. recover_objects (in_order_of [''object1'', ''object2'', ''object3''])
       (mock_bucket test_versions) ''prefix/'' 1633620600 False True () =
       Some (Inr (), (), evs) \<and>
     list_ex is_restore_start evs \<and> list_ex is_delete_start evs \<and>
     mutating_calls evs =
       [Call_copy_object ''bucket'' ''object1'' ''object1'' ''v2'',
        Call_copy_object ''bucket'' ''object2'' ''object2'' ''v1'',
        Call_delete_object ''object3'']) \<and>
   recover_objects_default (in_order_of [''object1'', ''object2'', ''object3''])
     (mock_bucket test_versions) ''prefix/'' 1633620600 () =
   recover_objects (in_order_of [''object1'', ''object2'', ''object3''])
     (mock_bucket test_versions) ''prefix/'' 1633620600 False False ()"
proof -
  let ?so = "in_order_of [''object1'', ''object2'', ''object3'']"
  have restored: "fst (restore_latest_versions (mock_bucket test_versions) test_latest_versions
                    False ()) = Inr ()"
    by (simp add: restore_latest_versions_def mock_bucket_def test_latest_versions_def Let_def)
  from delete_only_on_request [OF test_run, where so = ?so and dry = False and del = False]
    test_recovery_without_delete
  have off: "\<exists>evs. recover_objects ?so (mock_bucket test_versions) ''prefix/'' 1633620600
                 False False () = Some (Inr (), (), evs) \<and>
     list_ex is_restore_start evs \<and> \<not> list_ex is_delete_start evs \<and>
     (\<forall>k. Call_delete_object k \<notin> set evs) \<and>
     mutating_calls evs =
       [Call_copy_object ''bucket'' ''object1'' ''object1'' ''v2'',
        Call_copy_object ''bucket'' ''object2'' ''object2'' ''v1'']"
    by auto
  from delete_only_on_request [OF test_run, where so = ?so and dry = False and del = True]
    test_recovery_with_delete restored
  have on: "\<exists>evs. recover_objects ?so (mock_bucket test_versions) ''prefix/'' 1633620600
                 False True () = Some (Inr (), (), evs) \<and>
     list_ex is_restore_start evs \<and> list_ex is_delete_start evs \<and>
     mutating_calls evs =
       [Call_copy_object ''bucket'' ''object1'' ''object1'' ''v2'',
        Call_copy_object ''bucket'' ''object2'' ''object2'' ''v1'',
        Call_delete_object ''object3'']"
    by auto
  from delete_only_on_request [OF test_run, where so = ?so and dry = False and del = False]
  have dflt: "recover_objects_default ?so (mock_bucket test_versions) ''prefix/'' 1633620600 () =
      recover_objects ?so (mock_bucket test_versions) ''prefix/'' 1633620600 False False ()"
    by blast
  from test_run off on dflt show ?thesis by blast
qed

text \<open>
  C9. Every request of \<open>get_object_versions\<close> has \<open>max_keys = 999\<close>, the first has empty
  markers and each later one the markers of the page before it, and the loop is left
  exactly at the first page that is not truncated.
  \<^item> When \<open>get_object_versions\<close> returns a plan, its requests are the first with empty
    markers and then one for each page but the last, with that page's markers; the last
    page is not truncated and every page before it is; and the pages are those the
    service returns when asked in this way.
  \<^item> Whatever the outcome, every request has \<open>max_keys = 999\<close>; and a run that returns
    without having met a timestamp outside the range of \<open>datetime\<close> is on a service that
    answers some request with a page that is not truncated, or with an error: on a
    service that returns truncated pages for ever the function does not return.
  \<^item> If the service answers one of the first \<open>n + 1\<close> requests with a page that is not
    truncated (or with an error), \<open>get_object_versions\<close> returns, after at most \<open>n + 1\<close>
    requests.
  \<^item> If no request raises, the first page that is not truncated is among the first
    \<open>n + 1\<close> and every timestamp is in range, \<open>get_object_versions\<close> returns the plan of
    the scan over exactly these pages, having read them all and no more, with the
    requests above, and leaves the service in the state the last request left.
\<close>

theorem pagination_terminates:
  "(get_object_versions b p rt s = Some (Inr st, s', evs) \<longrightarrow>
      returned_pages evs \<noteq> [] \<and>
      list_calls evs = listing_requests p [] [] (returned_pages evs) \<and>
      \<not> is_truncated (last (returned_pages evs)) \<and>
      (\<forall>r\<in>set (butlast (returned_pages evs)). is_truncated r) \<and>
      (\<exists>n. listing b p n [] [] s = Some (returned_pages evs, s'))) \<and>
   (get_object_versions b p rt s = Some (out, s'', evs') \<longrightarrow>
      (\<forall>c\<in>set (list_calls evs'). \<exists>km vm. c = Call_list_object_versions p km vm 999) \<and>
      ((\<forall>v\<in>set (observed_versions evs'). representable (last_modified v)) \<longrightarrow>
         (\<exists>n. listing_ends b p n [] [] s))) \<and>
   (listing_ends b p n [] [] s \<longrightarrow>
      (\<exists>out s' evs. get_object_versions b p rt s = Some (out, s', evs) \<and>
         length (list_calls evs) \<le> Suc n)) \<and>
   (listing b p n [] [] s = Some (pages, s1) \<and>
    (\<forall>v\<in>set (concat (map versions pages)). representable (last_modified v)) \<longrightarrow>
      (\<exists>plan evs. get_object_versions b p rt s = Some (Inr plan, s1, evs) \<and>
         fst (process_versions rt ([], {}) (concat (map versions pages))) = Inr plan \<and>
         returned_pages evs = pages \<and>
         list_calls evs = listing_requests p [] [] pages \<and>
         length pages \<le> Suc n))"
proof (intro conjI impI)
  assume a: "get_object_versions b p rt s = Some (Inr st, s', evs)"
  from get_object_versions_Inr [OF a]
  show "returned_pages evs \<noteq> []" "list_calls evs = listing_requests p [] [] (returned_pages evs)"
    "\<not> is_truncated (last (returned_pages evs))"
    "\<forall>r\<in>set (butlast (returned_pages evs)). is_truncated r"
    by simp_all
  from get_object_versions_listing_sound [OF a]
  show "\<exists>n. listing b p n [] [] s = Some (returned_pages evs, s')" .
next
  assume "get_object_versions b p rt s = Some (out, s'', evs')"
  from get_object_versions_trace [OF this]
  show "\<forall>c\<in>set (list_calls evs'). \<exists>km vm. c = Call_list_object_versions p km vm 999"
    by (simp add: listing_trace_def)
next
  assume "get_object_versions b p rt s = Some (out, s'', evs')"
    and "\<forall>v\<in>set (observed_versions evs'). representable (last_modified v)"
  then show "\<exists>n. listing_ends b p n [] [] s"
    by (rule get_object_versions_returns_only_if_listing_ends)
next
  assume "listing_ends b p n [] [] s"
  then show "\<exists>out s' evs. get_object_versions b p rt s = Some (out, s', evs) \<and>
         length (list_calls evs) \<le> Suc n"
    by (rule get_object_versions_terminates)
next
  assume a: "listing b p n [] [] s = Some (pages, s1) \<and>
    (\<forall>v\<in>set (concat (map versions pages)). representable (last_modified v))"
  from get_object_versions_reads_listing [OF conjunct1 [OF a] conjunct2 [OF a]]
  show "\<exists>plan evs. get_object_versions b p rt s = Some (Inr plan, s1, evs) \<and>
         fst (process_versions rt ([], {}) (concat (map versions pages))) = Inr plan \<and>
         returned_pages evs = pages \<and>
         list_calls evs = listing_requests p [] [] pages \<and>
         length pages \<le> Suc n" .
qed

theorem pagination_terminates_witness:
  "listing three_pages_bucket ''prefix/'' 2 [] [] () =
     Some ([first_page, middle_page, last_page], ()) \<and>
   listing_ends three_pages_bucket ''prefix/'' 2 [] [] () \<and>
   (\<exists>evs. get_object_versions three_pages_bucket ''prefix/'' 1633620600 () =
       Some (Inr (test_latest_versions, {''object3''}), (), evs) \<and>
     observed_versions evs = test_versions \<and>
     returned_pages evs = [first_page, middle_page, last_page] \<and>
     list_calls evs =
       listing_requests ''prefix/'' [] [] [first_page, middle_page, last_page] \<and>
     list_calls evs =
       [Call_list_object_versions ''prefix/'' [] [] 999,
        Call_list_object_versions ''prefix/'' ''object1'' ''v3'' 999,
        Call_list_object_versions ''prefix/'' ''object2'' ''v2'' 999] \<and>
     length (list_calls evs) \<le> Suc 2 \<and>
     (\<exists>n. listing three_pages_bucket ''prefix/'' n [] [] () = Some (returned_pages evs, ()))) \<and>
   is_truncated first_page \<and> is_truncated middle_page \<and> \<not> is_truncated last_page"
proof -
  let ?pages = "[first_page, middle_page, last_page]"
  let ?plan = "(test_latest_versions, {''object3''})"
  have rep: "\<forall>v\<in>set (concat (map versions ?pages)). representable (last_modified v)"
    using test_versions_representable by (simp only: three_pages_versions)
  have ends: "listing_ends three_pages_bucket ''prefix/'' 2 [] [] ()"
  proof -
    have "listing_ends three_pages_bucket ''prefix/'' (Suc (Suc 0)) [] [] ()"
      by (simp add: three_pages_bucket_def first_page_def middle_page_def last_page_def)
    then show ?thesis by (simp add: numeral_2_eq_2)
  qed
  have h4: "listing three_pages_bucket ''prefix/'' 2 [] [] () = Some (?pages, ()) \<and>
      (\<forall>v\<in>set (concat (map versions ?pages)). representable (last_modified v))"
    using three_pages_listing rep by blast
  from pagination_terminates
    [where b = three_pages_bucket and p = "''prefix/''" and rt = 1633620600 and s = "()"
       and n = 2 and pages = ?pages and ?s1.0 = "()",
     THEN conjunct2, THEN conjunct2, THEN conjunct2, THEN mp, OF h4]
  obtain plan evs where
    run0: "get_object_versions three_pages_bucket ''prefix/'' 1633620600 () =
            Some (Inr plan, (), evs)" and
    plan: "fst (process_versions 1633620600 ([], {}) (concat (map versions ?pages))) = Inr plan" and
    pages: "returned_pages evs = ?pages" and
    calls: "list_calls evs = listing_requests ''prefix/'' [] [] ?pages"
    by blast
  from plan have "plan = ?plan" by (simp only: three_pages_versions three_pages_scan) simp
  with run0 have run: "get_object_versions three_pages_bucket ''prefix/'' 1633620600 () =
            Some (Inr ?plan, (), evs)" by simp
  have obs: "observed_versions evs = test_versions"
    using pages three_pages_versions by (simp only: observed_versions_def)
  note c1 = pagination_terminates
    [where b = three_pages_bucket and p = "''prefix/''" and rt = 1633620600 and s = "()"
       and st = ?plan and s' = "()" and evs = evs, THEN conjunct1, THEN mp, OF run]
  have rep': "\<forall>v\<in>set (observed_versions evs). representable (last_modified v)"
    using test_versions_representable by (simp only: obs)
  note c2 = pagination_terminates
    [where b = three_pages_bucket and p = "''prefix/''" and rt = 1633620600 and s = "()"
       and out = "Inr ?plan" and s'' = "()" and evs' = evs,
     THEN conjunct2, THEN conjunct1, THEN mp, OF run]
  from c2 rep' have ends': "\<exists>n. listing_ends three_pages_bucket ''prefix/'' n [] [] ()" by blast
  from pagination_terminates
    [where b = three_pages_bucket and p = "''prefix/''" and rt = 1633620600 and s = "()"
       and n = 2, THEN conjunct2, THEN conjunct2, THEN conjunct1, THEN mp, OF ends]
  obtain out s' evs' where
    "get_object_versions three_pages_bucket ''prefix/'' 1633620600 () = Some (out, s', evs')"
    and "length (list_calls evs') \<le> Suc 2"
    by blast
  with run have len: "length (list_calls evs) \<le> Suc 2" by simp
  from c1 have snd: "\<exists>n. listing three_pages_bucket ''prefix/'' n [] [] () =
      Some (returned_pages evs, ())" by blast
  have explicit: "listing_requests ''prefix/'' [] [] ?pages =
       [Call_list_object_versions ''prefix/'' [] [] 999,
        Call_list_object_versions ''prefix/'' ''object1'' ''v3'' 999,
        Call_list_object_versions ''prefix/'' ''object2'' ''v2'' 999]"
    by (simp add: listing_requests_def first_page_def middle_page_def)
  have trunc: "is_truncated first_page" "is_truncated middle_page" "\<not> is_truncated last_page"
    by (simp_all add: first_page_def middle_page_def last_page_def)
  from three_pages_listing ends run obs pages calls explicit len snd trunc
  show ?thesis by auto
qed

end
